theory Spec2Isabelle
  imports Main
begin

section \<open>Common data\<close>

text \<open>
  Object ids are the store's 12-byte identifiers; they are modelled by natural numbers,
  with \<open>NilObjectID\<close> (all bytes zero) as \<open>0\<close>.
\<close>

type_synonym ObjectID = nat

definition NilObjectID :: ObjectID where
  "NilObjectID = 0"

text \<open>
  Go's \<open>error\<close> values. The sentinels of the repository package are constructors, so
  that the source's \<open>err == repository.ErrAlreadyLocked\<close> is equality of constructors;
  \<open>Wrap e msg\<close> is \<open>errors.Wrap(e, msg)\<close> (never nil for a non-nil \<open>e\<close>), and
  \<open>Failure msg\<close> is any other error (store unreachable, expression failure, transport
  failure).
\<close>

datatype error =
    ErrAlreadyLocked
  | ErrLockNotFound
  | ErrNotFound
  | InvalidReturnVal
  | Failure string
  | Wrap error string

section \<open>Distributed lock manager (package job)\<close>

text \<open>
  \<open>repository.Lock\<close>, the lease row, and \<open>repository.LockRepo\<close>, the interface
  the manager talks to. The interface is a parameter: a record of operations over the
  repository's state \<open>'s\<close>. \<open>Renew\<close> returns a pair in Go whose first component the
  manager drops.
\<close>

record LockRow =
  Resource :: string
  Owner :: string
  LockID :: ObjectID
  ExpiresAt :: int

record 's LockRepo =
  Lock :: "string \<Rightarrow> string \<Rightarrow> int \<Rightarrow> 's \<Rightarrow> (error + LockRow) \<times> 's"
  Renew :: "ObjectID \<Rightarrow> int \<Rightarrow> 's \<Rightarrow> error option \<times> 's"
  UnLock :: "ObjectID \<Rightarrow> 's \<Rightarrow> error option \<times> 's"

text \<open>
  The manager's own state (\<open>DistributeLockManager\<close>). Its mutex serialises the
  methods; each method is therefore one atomic step on the pair of manager and
  repository state, returning Go's \<open>error\<close> (\<open>None\<close> is nil).
\<close>

record DistributeLockManager =
  lockID :: ObjectID
  locked :: bool
  owner :: string

definition NewDistributeLockManager :: "string \<Rightarrow> DistributeLockManager" where
  "NewDistributeLockManager ow = \<lparr>lockID = NilObjectID, locked = False, owner = ow\<rparr>"

definition lockResource :: string where
  "lockResource = ''crontab-lock''"

definition lock ::
  "'s LockRepo \<Rightarrow> DistributeLockManager \<Rightarrow> 's \<Rightarrow> error option \<times> DistributeLockManager \<times> 's" where
  "lock repo d s =
     (case Lock repo lockResource (owner d) 90 s of
        (Inl err, s') \<Rightarrow>
          if err = ErrAlreadyLocked
          then (None, d\<lparr>lockID := NilObjectID, locked := False\<rparr>, s')
          else (Some (Wrap err ''acquire lock failed''), d, s')
      | (Inr l, s') \<Rightarrow> (None, d\<lparr>lockID := LockID l, locked := True\<rparr>, s'))"

definition TryLock ::
  "'s LockRepo \<Rightarrow> DistributeLockManager \<Rightarrow> 's \<Rightarrow> error option \<times> DistributeLockManager \<times> 's" where
  "TryLock repo d s =
     (if locked d then
        (case Renew repo (lockID d) 90 s of
           (Some err, s') \<Rightarrow>
             if err = ErrLockNotFound then lock repo d s'
             else (Some (Wrap err ''renew lock failed''), d, s')
         | (None, s') \<Rightarrow> (None, d, s'))
      else lock repo d s)"

definition TryUnLock ::
  "'s LockRepo \<Rightarrow> DistributeLockManager \<Rightarrow> 's \<Rightarrow> error option \<times> DistributeLockManager \<times> 's" where
  "TryUnLock repo d s =
     (if locked d then
        (case UnLock repo (lockID d) s of
           (Some err, s') \<Rightarrow> (Some err, d\<lparr>locked := False, lockID := NilObjectID\<rparr>, s')
         | (None, s') \<Rightarrow> (None, d, s'))
      else (None, d, s))"

definition HasLock :: "DistributeLockManager \<Rightarrow> bool" where
  "HasLock d = locked d"

subsection \<open>An in-memory lock repository\<close>

text \<open>
  Modelled from the spec: the lock repository's implementation is not part of the
  sources. The spec asks the store to insert a lease atomically if none is held or the
  held one has expired and to return the new lease id, otherwise to return
  \<open>ErrAlreadyLocked\<close>; renewing a lease that is gone is \<open>ErrLockNotFound\<close>. The
  store's clock is part of its state. It serves as a concrete repository for the
  scenarios below; the theorems about the manager hold for every repository.
\<close>

record LockStore =
  lockRows :: "LockRow list"
  storeNow :: int

definition liveLock :: "LockStore \<Rightarrow> string \<Rightarrow> LockRow \<Rightarrow> bool" where
  "liveLock st res r = (Resource r = res \<and> storeNow st < ExpiresAt r)"

definition freshLockID :: "LockStore \<Rightarrow> ObjectID" where
  "freshLockID st = Suc (fold max (map LockID (lockRows st)) 0)"

definition memLock :: "string \<Rightarrow> string \<Rightarrow> int \<Rightarrow> LockStore \<Rightarrow> (error + LockRow) \<times> LockStore" where
  "memLock res ow ttl st =
     (case find (liveLock st res) (lockRows st) of
        Some r \<Rightarrow> (Inl ErrAlreadyLocked, st)
      | None \<Rightarrow>
          (let l = \<lparr>Resource = res, Owner = ow, LockID = freshLockID st,
                    ExpiresAt = storeNow st + ttl\<rparr>
           in (Inr l, st\<lparr>lockRows := l # filter (\<lambda>r. Resource r \<noteq> res) (lockRows st)\<rparr>)))"

definition memRenew :: "ObjectID \<Rightarrow> int \<Rightarrow> LockStore \<Rightarrow> error option \<times> LockStore" where
  "memRenew i ttl st =
     (case find (\<lambda>r. LockID r = i) (lockRows st) of
        None \<Rightarrow> (Some ErrLockNotFound, st)
      | Some r \<Rightarrow>
          (None, st\<lparr>lockRows :=
             map (\<lambda>r. if LockID r = i then r\<lparr>ExpiresAt := storeNow st + ttl\<rparr> else r)
               (lockRows st)\<rparr>))"

definition memUnLock :: "ObjectID \<Rightarrow> LockStore \<Rightarrow> error option \<times> LockStore" where
  "memUnLock i st =
     (case find (\<lambda>r. LockID r = i) (lockRows st) of
        None \<Rightarrow> (Some ErrLockNotFound, st)
      | Some r \<Rightarrow> (None, st\<lparr>lockRows := filter (\<lambda>r. LockID r \<noteq> i) (lockRows st)\<rparr>))"

definition memLockRepo :: "LockStore LockRepo" where
  "memLockRepo = \<lparr>Lock = memLock, Renew = memRenew, UnLock = memUnLock\<rparr>"

text \<open>A repository whose every call fails with a transport error.\<close>

definition downLockRepo :: "LockStore LockRepo" where
  "downLockRepo =
     \<lparr>Lock = (\<lambda>res ow ttl st. (Inl (Failure ''connection refused''), st)),
      Renew = (\<lambda>i ttl st. (Some (Failure ''connection refused''), st)),
      UnLock = (\<lambda>i st. (Some (Failure ''connection refused''), st))\<rparr>"

text \<open>Scenario data: node A holds the lease (id 1, expiring at 90), the clock is at 10.\<close>

definition heldByA :: LockStore where
  "heldByA =
     \<lparr>lockRows = [\<lparr>Resource = ''crontab-lock'', Owner = ''a(:19999)'', LockID = 1, ExpiresAt = 90\<rparr>],
      storeNow = 10\<rparr>"

definition nodeA :: DistributeLockManager where
  "nodeA = \<lparr>lockID = 1, locked = True, owner = ''a(:19999)''\<rparr>"

definition nodeB :: DistributeLockManager where
  "nodeB = NewDistributeLockManager ''b(:19999)''"

section \<open>Data model (package repository)\<close>

text \<open>
  The records of the repository package, with the fields the jobs and matchers read or
  write. Times are seconds on the integer line; \<open>MessageCount\<close> is Go's \<open>int64\<close>
  holding a document count, modelled by \<open>int\<close>.
\<close>

datatype MessageStatus =
    MessageStatusPending
  | MessageStatusGrouped
  | MessageStatusCanceled
  | MessageStatusExpired
  | MessageStatusIgnored

record Message =
  ID :: ObjectID
  Content :: string
  Meta :: "(string \<times> string) list"
  Tags :: "string list"
  Origin :: string
  Type :: string
  GroupID :: "ObjectID list"
  Status :: MessageStatus

record Trigger =
  triggerID :: ObjectID
  PreCondition :: string
  Action :: string

datatype RuleStatus = RuleStatusEnabled | RuleStatusDisabled

record Rule =
  ruleID :: ObjectID
  ruleName :: string
  matchRule :: string
  AggregateRule :: string
  Interval :: int
  Triggers :: "Trigger list"
  ruleStatus :: RuleStatus

record MessageGroupRule =
  groupRuleID :: ObjectID
  groupRuleName :: string
  AggregateKey :: string
  groupType :: string
  ExpectReadyAt :: int

datatype MessageGroupStatus =
    MessageGroupStatusCollecting
  | MessageGroupStatusPending
  | MessageGroupStatusOK
  | MessageGroupStatusFailed

record MessageGroup =
  groupID :: ObjectID
  grpRule :: MessageGroupRule
  MessageCount :: int
  Actions :: "Trigger list"
  groupStatus :: MessageGroupStatus

section \<open>Expression engine (interface)\<close>

text \<open>
  The expression library is external to the repository. It is a parameter: \<open>Compile\<close>
  turns an expression into a program or fails, \<open>Run\<close> evaluates a program in an
  environment \<open>'c\<close> and yields a dynamically typed value or fails.
\<close>

datatype exprValue = VBool bool | VInt int | VStr string | VNil

record ('p, 'c) ExprEngine =
  Compile :: "string \<Rightarrow> error + 'p"
  Run :: "'p \<Rightarrow> 'c \<Rightarrow> error + exprValue"

section \<open>Trigger matcher (internal/matcher/trigger\_matcher.go)\<close>

text \<open>
  \<open>TriggerContext\<close>: the group, the trigger, the lazy fetcher of the group's messages
  (\<open>None\<close> is a nil callback), the \<open>sync.Once\<close> (a flag that is set once its function
  has run) and the memoized messages (nil is the empty list). The callback reads the
  store \<open>'w\<close>; it is modelled as a state transformer so that a fetch is visible.
\<close>

record 'w TriggerContext =
  Group :: MessageGroup
  ctxTrigger :: Trigger
  MessageCallback :: "('w \<Rightarrow> Message list \<times> 'w) option"
  messageCallbackOnce :: bool
  messages :: "Message list"

definition emptyGroup :: MessageGroup where
  "emptyGroup =
     \<lparr>groupID = NilObjectID,
      grpRule = \<lparr>groupRuleID = NilObjectID, groupRuleName = [], AggregateKey = [],
                   groupType = [], ExpectReadyAt = 0\<rparr>,
      MessageCount = 0, Actions = [], groupStatus = MessageGroupStatusCollecting\<rparr>"

definition NewTriggerContext ::
  "Trigger \<Rightarrow> MessageGroup \<Rightarrow> ('w \<Rightarrow> Message list \<times> 'w) option \<Rightarrow> 'w TriggerContext" where
  "NewTriggerContext trig grp messageCallback =
     \<lparr>Group = grp, ctxTrigger = trig, MessageCallback = messageCallback,
      messageCallbackOnce = False, messages = []\<rparr>"

text \<open>
  \<open>Messages()\<close> has no parameter. It returns the messages, the context as the call
  leaves it, and the store as the callback (if it ran) leaves it.
\<close>

definition Messages :: "'w TriggerContext \<Rightarrow> 'w \<Rightarrow> Message list \<times> 'w TriggerContext \<times> 'w" where
  "Messages tc w =
     (if messageCallbackOnce tc then (messages tc, tc, w)
      else
        (case MessageCallback tc of
           None \<Rightarrow> (messages tc, tc\<lparr>messageCallbackOnce := True\<rparr>, w)
         | Some cb \<Rightarrow>
             (case cb w of
                (ms, w') \<Rightarrow> (ms, tc\<lparr>messageCallbackOnce := True, messages := ms\<rparr>, w'))))"

record 'p TriggerMatcher =
  program :: 'p
  trigger :: Trigger

definition NewTriggerMatcher :: "('p, 'c) ExprEngine \<Rightarrow> Trigger \<Rightarrow> error + 'p TriggerMatcher" where
  "NewTriggerMatcher eng trig =
     (let condition = (if PreCondition trig = [] then ''true'' else PreCondition trig)
      in case Compile eng condition of
           Inl err \<Rightarrow> Inl err
         | Inr prog \<Rightarrow> Inr \<lparr>program = prog, trigger = trig\<rparr>)"

definition TriggerMatcher_Match ::
  "('p, 'c) ExprEngine \<Rightarrow> 'p TriggerMatcher \<Rightarrow> 'c \<Rightarrow> bool \<times> error option" where
  "TriggerMatcher_Match eng m triggerCtx =
     (case Run eng (program m) triggerCtx of
        Inl err \<Rightarrow> (False, Some err)
      | Inr rs \<Rightarrow>
          (case rs of
             VBool boolRes \<Rightarrow> (boolRes, None)
           | _ \<Rightarrow> (False, Some InvalidReturnVal)))"

subsection \<open>A small engine for the scenarios\<close>

text \<open>
  A stand-in for the expression library with four expressions: the constants
  \<open>true\<close> and \<open>false\<close>, an expression whose value is not a boolean, and one that
  fails when it runs. Its environment is a trigger context over a store that counts
  fetches.
\<close>

datatype toyProgram = PConst exprValue | PRaise string

definition toyCompile :: "string \<Rightarrow> error + toyProgram" where
  "toyCompile src =
     (if src = ''true'' then Inr (PConst (VBool True))
      else if src = ''false'' then Inr (PConst (VBool False))
      else if src = ''Group.MessageCount'' then Inr (PConst (VInt 2))
      else if src = ''Messages()[0].Content == \"x\"'' then Inr (PRaise ''index out of range'')
      else Inl (Failure ''unknown name''))"

definition toyRun :: "toyProgram \<Rightarrow> nat TriggerContext \<Rightarrow> error + exprValue" where
  "toyRun prog env = (case prog of PConst v \<Rightarrow> Inr v | PRaise msg \<Rightarrow> Inl (Failure msg))"

definition toyEngine :: "(toyProgram, nat TriggerContext) ExprEngine" where
  "toyEngine = \<lparr>Compile = toyCompile, Run = toyRun\<rparr>"

definition noCondition :: Trigger where
  "noCondition = \<lparr>triggerID = 7, PreCondition = [], Action = ''dingding''\<rparr>"

text \<open>
  A store that counts the fetches made on it, a fetcher that returns three messages,
  and a fresh context over it.
\<close>

definition mkMessage :: "ObjectID \<Rightarrow> string \<Rightarrow> MessageStatus \<Rightarrow> Message" where
  "mkMessage i ty st =
     \<lparr>ID = i, Content = ''{}'', Meta = [], Tags = [], Origin = ''logstash'', Type = ty,
      GroupID = [], Status = st\<rparr>"

definition threeMessages :: "nat \<Rightarrow> Message list \<times> nat" where
  "threeMessages fetches =
     ([mkMessage 1 [] MessageStatusGrouped, mkMessage 2 [] MessageStatusGrouped,
       mkMessage 3 [] MessageStatusGrouped], Suc fetches)"

definition freshContext :: "nat TriggerContext" where
  "freshContext = NewTriggerContext noCondition emptyGroup (Some threeMessages)"

section \<open>Connector (package connector)\<close>

text \<open>
  The HTTP client is Go's standard library. It is a parameter: building a request can
  fail, performing it changes the network \<open>'n\<close> and yields a response or fails, and
  reading the body of a response (\<open>ioutil.ReadAll\<close>) yields the bytes or fails; the
  outcome of that read is carried by the response. The \<open>context.Context\<close> only
  bounds the calls and is part of the client's behaviour.
\<close>

record HttpRequest =
  reqMethod :: string
  reqURL :: string
  reqBody :: string
  reqHeader :: "(string \<times> string) list"

record HttpResponse =
  StatusCode :: int
  ReadAll :: "error + string"

record 'n HttpClient =
  NewRequestWithContext :: "string \<Rightarrow> string \<Rightarrow> string \<Rightarrow> error + HttpRequest"
  Do :: "HttpRequest \<Rightarrow> 'n \<Rightarrow> (error + HttpResponse) \<times> 'n"

record EventControl =
  controlID :: string
  InhibitInterval :: string
  RecoveryAfter :: string

record CommonEvent =
  evtContent :: string
  evtMeta :: "(string \<times> string) list"
  evtTags :: "string list"
  evtOrigin :: string
  evtControl :: EventControl

text \<open>\<open>strings.TrimRight(s, cutset)\<close> and \<open>Header.Set\<close>.\<close>

definition TrimRight :: "string \<Rightarrow> string \<Rightarrow> string" where
  "TrimRight s cutset = rev (dropWhile (\<lambda>c. c \<in> set cutset) (rev s))"

definition HeaderSet :: "string \<Rightarrow> string \<Rightarrow> HttpRequest \<Rightarrow> HttpRequest" where
  "HeaderSet k v req = req\<lparr>reqHeader := (k, v) # filter (\<lambda>kv. fst kv \<noteq> k) (reqHeader req)\<rparr>"

text \<open>
  \<open>sendEventToServer\<close>: the request that is performed, and the function itself. No
  branch reads \<open>StatusCode\<close>.
\<close>

definition withToken :: "string \<Rightarrow> HttpRequest \<Rightarrow> HttpRequest" where
  "withToken adanosToken req =
     (if adanosToken \<noteq> [] then HeaderSet ''Authorization'' (''Bearer '' @ adanosToken) req
      else req)"

definition sendEventToServer ::
  "'n HttpClient \<Rightarrow> string \<Rightarrow> string \<Rightarrow> string \<Rightarrow> 'n \<Rightarrow> error option \<times> 'n" where
  "sendEventToServer client data adanosServer adanosToken n =
     (let reqURL = TrimRight adanosServer ''/'' @ ''/api/events/''
      in case NewRequestWithContext client ''POST'' reqURL data of
           Inl err \<Rightarrow> (Some (Wrap err ''create request failed''), n)
         | Inr req \<Rightarrow>
             (case Do client (withToken adanosToken req) n of
                (Inl err, n') \<Rightarrow> (Some (Wrap err ''request failed''), n')
              | (Inr resp, n') \<Rightarrow>
                  (case ReadAll resp of
                     Inl err \<Rightarrow> (Some (Wrap err ''read response body failed''), n')
                   | Inr respBody \<Rightarrow> (None, n'))))"

text \<open>
  The loop of \<open>Send\<close> over the servers, with the variable \<open>err\<close> as an argument:
  it leaves the loop at the first server whose send returns nil.
\<close>

fun sendLoop ::
  "'n HttpClient \<Rightarrow> string \<Rightarrow> string \<Rightarrow> string list \<Rightarrow> error option \<Rightarrow> 'n \<Rightarrow> error option \<times> 'n" where
  "sendLoop client data token [] err n = (err, n)"
| "sendLoop client data token (s # servers) err n =
     (case sendEventToServer client data s token n of
        (None, n') \<Rightarrow> (None, n')
      | (Some e, n') \<Rightarrow> sendLoop client data token servers (Some e) n')"

definition Send ::
  "'n HttpClient \<Rightarrow> (CommonEvent \<Rightarrow> string) \<Rightarrow> string list \<Rightarrow> string \<Rightarrow>
   (string \<times> string) list \<Rightarrow> string list \<Rightarrow> string \<Rightarrow> EventControl \<Rightarrow> string \<Rightarrow> 'n \<Rightarrow>
   error option \<times> 'n" where
  "Send client marshal servers token meta tags origin ctl message n =
     (let evt = \<lparr>evtContent = message, evtMeta = meta, evtTags = tags, evtOrigin = origin,
                  evtControl = ctl\<rparr>;
          data = marshal evt
      in sendLoop client data token servers None n)"

subsection \<open>A network for the scenarios\<close>

text \<open>
  The network keeps the URLs requested so far. The host \<open>down\<close> refuses the
  connection, the host \<open>reject\<close> answers 500, every other host answers 200.
\<close>

definition testNewRequest :: "string \<Rightarrow> string \<Rightarrow> string \<Rightarrow> error + HttpRequest" where
  "testNewRequest method url body =
     (if url = [] then Inl (Failure ''empty url'')
      else Inr \<lparr>reqMethod = method, reqURL = url, reqBody = body, reqHeader = []\<rparr>)"

definition testDo :: "HttpRequest \<Rightarrow> string list \<Rightarrow> (error + HttpResponse) \<times> string list" where
  "testDo req contacted =
     (if reqURL req = ''http://down/api/events/''
        then (Inl (Failure ''connection refused''), contacted @ [reqURL req])
      else if reqURL req = ''http://reject/api/events/''
        then (Inr \<lparr>StatusCode = 500, ReadAll = Inr ''internal error''\<rparr>, contacted @ [reqURL req])
      else (Inr \<lparr>StatusCode = 200, ReadAll = Inr ''ok''\<rparr>, contacted @ [reqURL req]))"

definition testClient :: "string list HttpClient" where
  "testClient = \<lparr>NewRequestWithContext = testNewRequest, Do = testDo\<rparr>"

definition noControl :: EventControl where
  "noControl = \<lparr>controlID = [], InhibitInterval = [], RecoveryAfter = []\<rparr>"

definition testMarshal :: "CommonEvent \<Rightarrow> string" where
  "testMarshal evt = ''{\"content\":\"'' @ evtContent evt @ ''\"}''"

definition testData :: string where
  "testData =
     testMarshal \<lparr>evtContent = ''disk full'', evtMeta = [], evtTags = [], evtOrigin = ''agent'',
                  evtControl = noControl\<rparr>"

section \<open>Aggregation job (package job)\<close>

subsection \<open>What the job is given\<close>

text \<open>
  The message matcher and the message finger live in the matcher package, whose files
  for them are not part of the sources; the job uses them through \<open>Match\<close>,
  \<open>Rule\<close> and \<open>Run\<close> only. A matcher is therefore its rule together with its
  \<open>Match\<close>, a function from a message to Go's triple (matched, ignored, err); a finger
  is its \<open>Run\<close>, from a message to a key or an error.
\<close>

record MessageMatcher =
  matcherRule :: Rule
  Match :: "Message \<Rightarrow> bool \<times> bool \<times> error option"

type_synonym MessageFinger = "Message \<Rightarrow> error + string"

text \<open>
  The calls on the store, as far as a failure of the store can be told apart, and the
  environment of a run: the clock (constant during a run), the two constructors of the
  matcher package, the failures of the store (\<open>None\<close>: the call goes through), and
  whether the container's \<open>MustResolve\<close> panics when the resolved function returns an
  error (the container library is external).
\<close>

datatype StoreOp =
    OpRuleFind
  | OpMessageTraverse MessageStatus
  | OpMessageUpdateID ObjectID
  | OpMessageCount ObjectID
  | OpCollectingGroup MessageGroupRule
  | OpGroupTraverse MessageGroupStatus
  | OpGroupUpdateID ObjectID

record Env =
  Now :: int
  NewMessageMatcher :: "Rule \<Rightarrow> MessageMatcher \<times> error option"
  NewMessageFinger :: "string \<Rightarrow> error + MessageFinger"
  StoreFault :: "StoreOp \<Rightarrow> error option"
  MustResolvePanics :: bool

text \<open>
  The store and the in-process event bus: the collections in store-native order and
  the group-pending events published so far.
\<close>

record MessageGroupPendingEvent =
  eventGroup :: MessageGroup
  CreatedAt :: int

record World =
  storedMessages :: "Message list"
  storedGroups :: "MessageGroup list"
  storedRules :: "Rule list"
  published :: "MessageGroupPendingEvent list"

subsection \<open>The repositories\<close>

text \<open>
  Modelled from the spec: the implementations of \<open>MessageRepo\<close>,
  \<open>MessageGroupRepo\<close> and \<open>RuleRepo\<close> are not part of the sources (the user
  repository, which is, shows their shape: a filtered cursor read to its end, counts
  handed through from the driver). The spec asks of the store a cursor-style traversal
  with a filter, counted queries, updates by id and an atomic find-or-insert of the
  collecting group of a (rule id, aggregate key, type) triple. A traversal visits the
  documents that match the filter when it starts, in store order, and stops at the
  first error its callback returns. Every call fails when the environment says so and
  then leaves the store untouched; a failed count returns 0 with the error, as the
  driver does.
\<close>

fun traverse :: "('a \<Rightarrow> 's \<Rightarrow> error option \<times> 's) \<Rightarrow> 'a list \<Rightarrow> 's \<Rightarrow> error option \<times> 's" where
  "traverse cb [] s = (None, s)"
| "traverse cb (x # xs) s =
     (case cb x s of
        (Some err, s') \<Rightarrow> (Some err, s')
      | (None, s') \<Rightarrow> traverse cb xs s')"

definition RuleRepo_Find :: "Env \<Rightarrow> RuleStatus \<Rightarrow> World \<Rightarrow> error + Rule list" where
  "RuleRepo_Find env st w =
     (case StoreFault env OpRuleFind of
        Some err \<Rightarrow> Inl err
      | None \<Rightarrow> Inr (filter (\<lambda>r. ruleStatus r = st) (storedRules w)))"

definition MessageRepo_Traverse ::
  "Env \<Rightarrow> MessageStatus \<Rightarrow> (Message \<Rightarrow> 'c \<times> World \<Rightarrow> error option \<times> 'c \<times> World) \<Rightarrow>
   'c \<times> World \<Rightarrow> error option \<times> 'c \<times> World" where
  "MessageRepo_Traverse env st cb cw =
     (case StoreFault env (OpMessageTraverse st) of
        Some err \<Rightarrow> (Some err, cw)
      | None \<Rightarrow> traverse cb (filter (\<lambda>m. Status m = st) (storedMessages (snd cw))) cw)"

definition MessageRepo_UpdateID :: "Env \<Rightarrow> ObjectID \<Rightarrow> Message \<Rightarrow> World \<Rightarrow> error option \<times> World" where
  "MessageRepo_UpdateID env i msg w =
     (case StoreFault env (OpMessageUpdateID i) of
        Some err \<Rightarrow> (Some err, w)
      | None \<Rightarrow>
          (None, w\<lparr>storedMessages := map (\<lambda>m. if ID m = i then msg else m) (storedMessages w)\<rparr>))"

definition MessageRepo_Count :: "Env \<Rightarrow> ObjectID \<Rightarrow> World \<Rightarrow> int \<times> error option" where
  "MessageRepo_Count env gid w =
     (case StoreFault env (OpMessageCount gid) of
        Some err \<Rightarrow> (0, Some err)
      | None \<Rightarrow> (int (length (filter (\<lambda>m. gid \<in> set (GroupID m)) (storedMessages w))), None))"

definition sameCollecting :: "MessageGroupRule \<Rightarrow> MessageGroup \<Rightarrow> bool" where
  "sameCollecting rule g =
     (groupStatus g = MessageGroupStatusCollecting
      \<and> groupRuleID (grpRule g) = groupRuleID rule
      \<and> AggregateKey (grpRule g) = AggregateKey rule
      \<and> groupType (grpRule g) = groupType rule)"

definition freshGroupID :: "World \<Rightarrow> ObjectID" where
  "freshGroupID w = Suc (fold max (map groupID (storedGroups w)) 0)"

definition CollectingGroup :: "Env \<Rightarrow> MessageGroupRule \<Rightarrow> World \<Rightarrow> (error + MessageGroup) \<times> World" where
  "CollectingGroup env rule w =
     (case StoreFault env (OpCollectingGroup rule) of
        Some err \<Rightarrow> (Inl err, w)
      | None \<Rightarrow>
          (case find (sameCollecting rule) (storedGroups w) of
             Some g \<Rightarrow> (Inr g, w)
           | None \<Rightarrow>
               (let g = \<lparr>groupID = freshGroupID w, grpRule = rule, MessageCount = 0,
                         Actions = [], groupStatus = MessageGroupStatusCollecting\<rparr>
                in (Inr g, w\<lparr>storedGroups := storedGroups w @ [g]\<rparr>))))"

definition GroupRepo_Traverse ::
  "Env \<Rightarrow> MessageGroupStatus \<Rightarrow> (MessageGroup \<Rightarrow> World \<Rightarrow> error option \<times> World) \<Rightarrow>
   World \<Rightarrow> error option \<times> World" where
  "GroupRepo_Traverse env st cb w =
     (case StoreFault env (OpGroupTraverse st) of
        Some err \<Rightarrow> (Some err, w)
      | None \<Rightarrow> traverse cb (filter (\<lambda>g. groupStatus g = st) (storedGroups w)) w)"

definition GroupRepo_UpdateID :: "Env \<Rightarrow> ObjectID \<Rightarrow> MessageGroup \<Rightarrow> World \<Rightarrow> error option \<times> World" where
  "GroupRepo_UpdateID env i grp w =
     (case StoreFault env (OpGroupUpdateID i) of
        Some err \<Rightarrow> (Some err, w)
      | None \<Rightarrow>
          (None, w\<lparr>storedGroups := map (\<lambda>g. if groupID g = i then grp else g) (storedGroups w)\<rparr>))"

text \<open>
  Modelled from the spec: \<open>Rule.ToGroupRule\<close> and \<open>MessageGroup.Ready\<close> are not
  part of the sources. The group rule is the snapshot of the rule for one aggregate key
  and type, with the readiness time of the fixed-delay policy (create time plus the
  rule's interval); a group is ready when its expected-ready-at is not after now.
\<close>

definition ToGroupRule :: "Env \<Rightarrow> Rule \<Rightarrow> string \<Rightarrow> string \<Rightarrow> MessageGroupRule" where
  "ToGroupRule env rule aggregateKey msgType =
     \<lparr>groupRuleID = ruleID rule, groupRuleName = ruleName rule, AggregateKey = aggregateKey,
      groupType = msgType, ExpectReadyAt = Now env + Interval rule\<rparr>"

definition Ready :: "Env \<Rightarrow> MessageGroup \<Rightarrow> bool" where
  "Ready env grp = (ExpectReadyAt (grpRule grp) \<le> Now env)"

definition Publish :: "Env \<Rightarrow> MessageGroup \<Rightarrow> World \<Rightarrow> World" where
  "Publish env grp w = w\<lparr>published := published w @ [\<lparr>eventGroup = grp, CreatedAt = Now env\<rparr>]\<rparr>"

subsection \<open>Small helpers\<close>

text \<open>
  \<open>ObjectID.Hex\<close> (24 lower-case hexadecimal digits), \<open>misc.IfElse\<close>, and the two
  error-building calls of the standard library (\<open>fmt.Errorf\<close> with the error as its
  last argument is \<open>Wrap\<close> with the format as message).
\<close>

definition hexDigit :: "nat \<Rightarrow> char" where
  "hexDigit d = ''0123456789abcdef'' ! (d mod 16)"

fun hexString :: "nat \<Rightarrow> nat \<Rightarrow> string" where
  "hexString 0 n = []"
| "hexString (Suc k) n = hexString k (n div 16) @ [hexDigit n]"

definition Hex :: "ObjectID \<Rightarrow> string" where
  "Hex i = hexString 24 i"

definition IfElse :: "bool \<Rightarrow> 'a \<Rightarrow> 'a \<Rightarrow> 'a" where
  "IfElse cond a b = (if cond then a else b)"

subsection \<open>The job\<close>

definition BuildMessageFinger :: "Env \<Rightarrow> string \<Rightarrow> Message \<Rightarrow> string" where
  "BuildMessageFinger env groupRule msg =
     (case NewMessageFinger env groupRule of
        Inl err \<Rightarrow> ''[error]invalid_rule''
      | Inr finger \<Rightarrow>
          (case finger msg of
             Inl err \<Rightarrow> ''[error]parse_failed''
           | Inr groupKey \<Rightarrow> groupKey))"

text \<open>
  \<open>initializeMatchers\<close>: the matcher of every enabled rule, also of a rule whose
  expression did not compile (the error is logged, the matcher returned with it is
  kept). Collecting the mapped values cannot fail.
\<close>

definition initializeMatchers :: "Env \<Rightarrow> World \<Rightarrow> error + MessageMatcher list" where
  "initializeMatchers env w =
     (case RuleRepo_Find env RuleStatusEnabled w of
        Inl err \<Rightarrow> Inl (Wrap err ''aggregate message failed because rules query failed: %s'')
      | Inr rules \<Rightarrow> Inr (map (\<lambda>ru. fst (NewMessageMatcher env ru)) rules))"

text \<open>
  The first traversal of \<open>groupingMessages\<close> (\<open>classifyPending\<close> below).
  \<open>groupingStep\<close> is the body of the loop over the matchers, on the variables it
  changes: the message, \<open>messageCanIgnore\<close>, the map \<open>collectingGroups\<close> (which
  outlives the callback) and the store. \<open>groupingLoop\<close> is the loop: each matcher
  sees the message as the matchers before it left it, and a failure of
  \<open>CollectingGroup\<close> leaves the callback at once.
\<close>

type_synonym collectingGroups = "string \<rightharpoonup> MessageGroup"

type_synonym groupingState = "Message \<times> bool \<times> collectingGroups \<times> World"

definition cacheKey :: "Env \<Rightarrow> MessageMatcher \<Rightarrow> Message \<Rightarrow> string" where
  "cacheKey env m msg =
     Hex (ruleID (matcherRule m)) @ '':''
       @ BuildMessageFinger env (AggregateRule (matcherRule m)) msg @ '':'' @ Type msg"

definition groupingStep :: "Env \<Rightarrow> MessageMatcher \<Rightarrow> groupingState \<Rightarrow> error option \<times> groupingState" where
  "groupingStep env m st =
     (case st of (msg, messageCanIgnore, cg, w) \<Rightarrow>
        (case Match m msg of
           (matched, ignored, Some err) \<Rightarrow> (None, msg, messageCanIgnore, cg, w)
         | (matched, ignored, None) \<Rightarrow>
             if matched then
               if ignored then (None, msg, True, cg, w)
               else
                 (let aggregateKey = BuildMessageFinger env (AggregateRule (matcherRule m)) msg;
                      key = cacheKey env m msg
                  in case cg key of
                       Some g \<Rightarrow>
                         (None,
                          msg\<lparr>GroupID := GroupID msg @ [groupID g], Status := MessageStatusGrouped\<rparr>,
                          messageCanIgnore, cg, w)
                     | None \<Rightarrow>
                         (case CollectingGroup env
                                 (ToGroupRule env (matcherRule m) aggregateKey (Type msg)) w of
                            (Inl err, w') \<Rightarrow> (Some err, msg, messageCanIgnore, cg, w')
                          | (Inr grp, w') \<Rightarrow>
                              (None,
                               msg\<lparr>GroupID := GroupID msg @ [groupID grp],
                                    Status := MessageStatusGrouped\<rparr>,
                               messageCanIgnore, cg(key \<mapsto> grp), w')))
             else (None, msg, messageCanIgnore, cg, w)))"

fun groupingLoop ::
  "Env \<Rightarrow> MessageMatcher list \<Rightarrow> groupingState \<Rightarrow> error option \<times> groupingState" where
  "groupingLoop env [] st = (None, st)"
| "groupingLoop env (m # ms) st =
     (case groupingStep env m st of
        (Some err, st') \<Rightarrow> (Some err, st')
      | (None, st') \<Rightarrow> groupingLoop env ms st')"

definition groupingCallback ::
  "Env \<Rightarrow> MessageMatcher list \<Rightarrow> Message \<Rightarrow> collectingGroups \<times> World \<Rightarrow>
   error option \<times> collectingGroups \<times> World" where
  "groupingCallback env matchers msg cw =
     (case groupingLoop env matchers (msg, False, fst cw, snd cw) of
        (Some err, msg1, messageCanIgnore, cg, w) \<Rightarrow> (Some err, cg, w)
      | (None, msg1, messageCanIgnore, cg, w) \<Rightarrow>
          (let msg2 =
                 (if Status msg1 = MessageStatusPending
                  then msg1\<lparr>Status := IfElse messageCanIgnore MessageStatusIgnored MessageStatusCanceled\<rparr>
                  else msg1)
           in case MessageRepo_UpdateID env (ID msg2) msg2 w of
                (err, w') \<Rightarrow> (err, cg, w')))"

text \<open>
  The second traversal (\<open>rematchCanceled\<close> below): a canceled message that some
  matcher matches becomes expired.
\<close>

fun rematchLoop :: "MessageMatcher list \<Rightarrow> Message \<Rightarrow> Message" where
  "rematchLoop [] msg = msg"
| "rematchLoop (m # ms) msg =
     (case Match m msg of
        (matched, ignored, Some err) \<Rightarrow> rematchLoop ms msg
      | (matched, ignored, None) \<Rightarrow>
          if matched then msg\<lparr>Status := MessageStatusExpired\<rparr> else rematchLoop ms msg)"

definition rematchCallback ::
  "Env \<Rightarrow> MessageMatcher list \<Rightarrow> Message \<Rightarrow> unit \<times> World \<Rightarrow> error option \<times> unit \<times> World" where
  "rematchCallback env matchers msg cw =
     (let msg1 = rematchLoop matchers msg
      in case MessageRepo_UpdateID env (ID msg1) msg1 (snd cw) of
           (err, w') \<Rightarrow> (err, (), w'))"

definition classifyPending ::
  "Env \<Rightarrow> MessageMatcher list \<Rightarrow> World \<Rightarrow> error option \<times> collectingGroups \<times> World" where
  "classifyPending env matchers w =
     MessageRepo_Traverse env MessageStatusPending (groupingCallback env matchers) (Map.empty, w)"

definition rematchCanceled ::
  "Env \<Rightarrow> MessageMatcher list \<Rightarrow> World \<Rightarrow> error option \<times> unit \<times> World" where
  "rematchCanceled env matchers w =
     MessageRepo_Traverse env MessageStatusCanceled (rematchCallback env matchers) ((), w)"

definition groupingMessages :: "Env \<Rightarrow> World \<Rightarrow> error option \<times> World" where
  "groupingMessages env w =
     (case initializeMatchers env w of
        Inl err \<Rightarrow> (Some err, w)
      | Inr matchers \<Rightarrow>
          (case classifyPending env matchers w of
             (Some err, cg, w1) \<Rightarrow> (Some err, w1)
           | (None, cg, w1) \<Rightarrow>
               (case rematchCanceled env matchers w1 of
                  (err, u, w2) \<Rightarrow> (err, w2))))"

text \<open>
  \<open>pendingMessageGroup\<close>. A failed count is logged only: the callback goes on with the
  number that came with the error.
\<close>

definition pendingCallback :: "Env \<Rightarrow> MessageGroup \<Rightarrow> World \<Rightarrow> error option \<times> World" where
  "pendingCallback env grp w =
     (if \<not> Ready env grp then (None, w)
      else
        (case MessageRepo_Count env (groupID grp) w of
           (msgCount, countErr) \<Rightarrow>
             (let grp1 = grp\<lparr>MessageCount := msgCount, groupStatus := MessageGroupStatusPending\<rparr>
              in case GroupRepo_UpdateID env (groupID grp1) grp1 w of
                   (err, w') \<Rightarrow> (err, Publish env grp1 w'))))"

definition pendingMessageGroup :: "Env \<Rightarrow> World \<Rightarrow> error option \<times> World" where
  "pendingMessageGroup env w =
     GroupRepo_Traverse env MessageGroupStatusCollecting (pendingCallback env) w"

text \<open>
  \<open>Handle\<close>. The one-slot channel \<open>executing\<close> is a flag: a run that finds it set
  is skipped, a run that finds it clear sets it and clears it again when it leaves.
\<close>

datatype HandleResult = Skipped | Completed | Panicked error

record AggregationJob =
  executing :: bool

definition NewAggregationJob :: AggregationJob where
  "NewAggregationJob = \<lparr>executing = False\<rparr>"

definition MustResolve :: "Env \<Rightarrow> error option \<Rightarrow> error option" where
  "MustResolve env res = (if MustResolvePanics env then res else None)"

definition Handle :: "Env \<Rightarrow> AggregationJob \<Rightarrow> World \<Rightarrow> HandleResult \<times> AggregationJob \<times> World" where
  "Handle env a w =
     (if executing a then (Skipped, a, w)
      else
        (case groupingMessages env w of
           (r1, w1) \<Rightarrow>
             (case MustResolve env r1 of
                Some err \<Rightarrow> (Panicked err, a\<lparr>executing := False\<rparr>, w1)
              | None \<Rightarrow>
                  (case pendingMessageGroup env w1 of
                     (r2, w2) \<Rightarrow>
                       (case MustResolve env r2 of
                          Some err \<Rightarrow> (Panicked err, a\<lparr>executing := False\<rparr>, w2)
                        | None \<Rightarrow> (Completed, a\<lparr>executing := False\<rparr>, w2))))))"

subsection \<open>Notions the properties are stated with\<close>

text \<open>
  A matcher matches a message genuinely when its \<open>Match\<close> returns no error, matched
  and not ignored; it flags the message as ignored when \<open>Match\<close> returns no error,
  matched and ignored; it matches when \<open>Match\<close> returns no error and matched.
\<close>

definition genuineMatch :: "MessageMatcher \<Rightarrow> Message \<Rightarrow> bool" where
  "genuineMatch m msg =
     (case Match m msg of (matched, ignored, err) \<Rightarrow> err = None \<and> matched \<and> \<not> ignored)"

definition ignoredMatch :: "MessageMatcher \<Rightarrow> Message \<Rightarrow> bool" where
  "ignoredMatch m msg =
     (case Match m msg of (matched, ignored, err) \<Rightarrow> err = None \<and> matched \<and> ignored)"

definition anyMatch :: "MessageMatcher \<Rightarrow> Message \<Rightarrow> bool" where
  "anyMatch m msg = (case Match m msg of (matched, ignored, err) \<Rightarrow> err = None \<and> matched)"

text \<open>
  What the second traversal does to one stored message and what the third does to one
  stored group, and the groups the third traversal advances.
\<close>

definition expire :: "MessageMatcher list \<Rightarrow> Message \<Rightarrow> Message" where
  "expire matchers msg =
     (if Status msg = MessageStatusCanceled then rematchLoop matchers msg else msg)"

definition readyCollecting :: "Env \<Rightarrow> MessageGroup \<Rightarrow> bool" where
  "readyCollecting env g = (groupStatus g = MessageGroupStatusCollecting \<and> Ready env g)"

definition storeCount :: "World \<Rightarrow> ObjectID \<Rightarrow> int" where
  "storeCount w gid = int (length (filter (\<lambda>m. gid \<in> set (GroupID m)) (storedMessages w)))"

definition advance :: "Env \<Rightarrow> World \<Rightarrow> MessageGroup \<Rightarrow> MessageGroup" where
  "advance env w g =
     (if readyCollecting env g
      then g\<lparr>MessageCount := fst (MessageRepo_Count env (groupID g) w),
             groupStatus := MessageGroupStatusPending\<rparr>
      else g)"

text \<open>
  A group id is known in a store, for a list of matchers, when the store holds a
  collecting group with this id whose rule is the rule of one of the matchers. The map
  \<open>collectingGroups\<close> is sound for a store when every group it holds is known there.
\<close>

definition knownGroup :: "MessageMatcher list \<Rightarrow> World \<Rightarrow> ObjectID \<Rightarrow> bool" where
  "knownGroup ms w gid =
     list_ex (\<lambda>g. groupID g = gid \<and> groupStatus g = MessageGroupStatusCollecting
                   \<and> list_ex (\<lambda>m. ruleID (matcherRule m) = groupRuleID (grpRule g)) ms)
       (storedGroups w)"

definition cacheKnown :: "MessageMatcher list \<Rightarrow> collectingGroups \<Rightarrow> World \<Rightarrow> bool" where
  "cacheKnown ms cg w = (\<forall>k g. cg k = Some g \<longrightarrow> knownGroup ms w (groupID g))"

text \<open>
  The decision matrix of the first traversal, as a relation between a pending message
  and the message stored for it: grouped with at least one group id appended, each of
  them known in the store, when some matcher matches it genuinely; otherwise the group
  ids as they were, and ignored when some matcher flags it as ignored, canceled when
  none does.
\<close>

definition decided :: "MessageMatcher list \<Rightarrow> World \<Rightarrow> Message \<Rightarrow> Message \<Rightarrow> bool" where
  "decided ms w' msg msg' =
     (ID msg' = ID msg
      \<and> (if list_ex (\<lambda>m. genuineMatch m msg) ms
         then Status msg' = MessageStatusGrouped
              \<and> (\<exists>gids. gids \<noteq> [] \<and> GroupID msg' = GroupID msg @ gids
                     \<and> list_all (knownGroup ms w') gids)
         else GroupID msg' = GroupID msg
              \<and> Status msg' = (if list_ex (\<lambda>m. ignoredMatch m msg) ms
                                then MessageStatusIgnored else MessageStatusCanceled)))"

text \<open>Computing the fingerprint fails: the expression does not compile, or its run errors.\<close>

definition fingerFails :: "Env \<Rightarrow> string \<Rightarrow> Message \<Rightarrow> bool" where
  "fingerFails env groupRule msg =
     (case NewMessageFinger env groupRule of
        Inl err \<Rightarrow> True
      | Inr finger \<Rightarrow> (case finger msg of Inl err \<Rightarrow> True | Inr k \<Rightarrow> False))"

subsection \<open>A deployment for the scenarios\<close>

text \<open>
  Stand-ins for the matcher package: three match expressions (one of them flags its
  matches as ignored, one fails whenever it runs; every other expression does not
  compile, and the matcher that comes back with the compile error fails on every
  message) and three aggregate expressions.
\<close>

definition testNewMessageMatcher :: "Rule \<Rightarrow> MessageMatcher \<times> error option" where
  "testNewMessageMatcher ru =
     (if matchRule ru = ''Origin == \"logstash\"''
        then (\<lparr>matcherRule = ru, Match = (\<lambda>m. (Origin m = ''logstash'', False, None))\<rparr>, None)
      else if matchRule ru = ''Origin == \"noise\"''
        then (\<lparr>matcherRule = ru, Match = (\<lambda>m. (Origin m = ''noise'', True, None))\<rparr>, None)
      else if matchRule ru = ''Meta[\"load\"] > 3''
        then (\<lparr>matcherRule = ru,
               Match = (\<lambda>m. (False, False, Some (Failure ''invalid operation: string > int'')))\<rparr>, None)
      else (\<lparr>matcherRule = ru, Match = (\<lambda>m. (False, False, Some (Failure ''no program'')))\<rparr>,
            Some (Failure ''unknown name'')))"

definition testNewMessageFinger :: "string \<Rightarrow> error + MessageFinger" where
  "testNewMessageFinger groupRule =
     (if groupRule = [] then Inr (\<lambda>m. Inr [])
      else if groupRule = ''Origin'' then Inr (\<lambda>m. Inr (Origin m))
      else if groupRule = ''Meta[\"server\"]''
        then Inr (\<lambda>m. case map_of (Meta m) ''server'' of
                          None \<Rightarrow> Inl (Failure ''cannot use nil as string'')
                        | Some v \<Rightarrow> Inr v)
      else Inl (Failure ''unexpected token''))"

definition testEnv :: Env where
  "testEnv =
     \<lparr>Now = 100, NewMessageMatcher = testNewMessageMatcher,
      NewMessageFinger = testNewMessageFinger, StoreFault = (\<lambda>op. None),
      MustResolvePanics = True\<rparr>"

definition mkRule :: "ObjectID \<Rightarrow> string \<Rightarrow> string \<Rightarrow> Rule" where
  "mkRule i expr agg =
     \<lparr>ruleID = i, ruleName = ''rule'', matchRule = expr, AggregateRule = agg, Interval = 60,
      Triggers = [], ruleStatus = RuleStatusEnabled\<rparr>"

definition ruleLogstash :: Rule where
  "ruleLogstash = mkRule 1 ''Origin == \"logstash\"'' ''Meta[\"server\"]''"

definition ruleNoise :: Rule where
  "ruleNoise = mkRule 2 ''Origin == \"noise\"'' []"

definition ruleLoad :: Rule where
  "ruleLoad = mkRule 3 ''Meta[\"load\"] > 3'' []"

definition ruleBroken :: Rule where
  "ruleBroken = mkRule 4 ''xxxxxxx'' ''Meta[''"


definition eventA :: Message where
  "eventA = (mkMessage 11 ''log'' MessageStatusPending)\<lparr>Meta := [(''server'', ''a'')]\<rparr>"

definition eventNoMeta :: Message where
  "eventNoMeta = mkMessage 12 ''log'' MessageStatusPending"

definition eventNoise :: Message where
  "eventNoise = (mkMessage 13 ''log'' MessageStatusPending)\<lparr>Origin := ''noise''\<rparr>"

definition eventOther :: Message where
  "eventOther = (mkMessage 14 ''log'' MessageStatusPending)\<lparr>Origin := ''cron''\<rparr>"

definition eventExpiring :: Message where
  "eventExpiring = mkMessage 15 ''log'' MessageStatusCanceled"

definition eventGrouped :: Message where
  "eventGrouped = (mkMessage 10 ''log'' MessageStatusGrouped)\<lparr>GroupID := [5]\<rparr>"

definition groupOld :: MessageGroup where
  "groupOld =
     \<lparr>groupID = 5,
      grpRule = \<lparr>groupRuleID = 1, groupRuleName = ''rule'', AggregateKey = ''b'',
                 groupType = ''log'', ExpectReadyAt = 50\<rparr>,
      MessageCount = 0, Actions = [], groupStatus = MessageGroupStatusCollecting\<rparr>"

definition emptyWorld :: World where
  "emptyWorld = \<lparr>storedMessages = [], storedGroups = [], storedRules = [], published = []\<rparr>"

definition testWorld :: World where
  "testWorld =
     \<lparr>storedMessages = [eventGrouped, eventA, eventNoMeta, eventNoise, eventOther, eventExpiring],
      storedGroups = [groupOld],
      storedRules = [ruleBroken, ruleLoad, ruleNoise, ruleLogstash],
      published = []\<rparr>"

text \<open>
  The same deployment over a store that answers every call but the count of the
  messages of group 5, which fails.
\<close>

definition countFailsEnv :: Env where
  "countFailsEnv =
     testEnv\<lparr>StoreFault :=
       (\<lambda>op. if op = OpMessageCount 5 then Some (Failure ''connection reset'') else None)\<rparr>"

definition raisingMatcher :: "toyProgram TriggerMatcher" where
  "raisingMatcher = \<lparr>program = PRaise ''index out of range'', trigger = noCondition\<rparr>"

definition numberMatcher :: "toyProgram TriggerMatcher" where
  "numberMatcher = \<lparr>program = PConst (VInt 2), trigger = noCondition\<rparr>"

section \<open>Properties of the lock manager\<close>

text \<open>
  C7. A node that does not hold the lease calls \<open>TryLock\<close>. If the repository's
  \<open>Lock\<close> answers \<open>ErrAlreadyLocked\<close>, \<open>TryLock\<close> returns nil, the node's
  \<open>HasLock\<close> is false afterwards and its lock id is \<open>NilObjectID\<close>. Any other error
  of the repository is returned from \<open>TryLock\<close> (wrapped by \<open>errors.Wrap\<close>), and the
  manager's state is left as it was.
\<close>

theorem TryLock_not_holding:
  assumes "\<not> locked d"
  shows "(Lock repo lockResource (owner d) 90 s = (Inl ErrAlreadyLocked, s') \<longrightarrow>
            fst (TryLock repo d s) = None \<and>
            \<not> HasLock (fst (snd (TryLock repo d s))) \<and>
            lockID (fst (snd (TryLock repo d s))) = NilObjectID)
       \<and> (Lock repo lockResource (owner d) 90 s = (Inl e, s') \<and> e \<noteq> ErrAlreadyLocked \<longrightarrow>
            fst (TryLock repo d s) = Some (Wrap e ''acquire lock failed'') \<and>
            fst (snd (TryLock repo d s)) = d)"
  using assms by (simp add: TryLock_def lock_def HasLock_def)

theorem TryLock_not_holding_witness:
  "\<not> locked nodeB
   \<and> Lock memLockRepo lockResource (owner nodeB) 90 heldByA = (Inl ErrAlreadyLocked, heldByA)
   \<and> fst (TryLock memLockRepo nodeB heldByA) = None
   \<and> \<not> HasLock (fst (snd (TryLock memLockRepo nodeB heldByA)))
   \<and> lockID (fst (snd (TryLock memLockRepo nodeB heldByA))) = NilObjectID
   \<and> Lock downLockRepo lockResource (owner nodeB) 90 heldByA
        = (Inl (Failure ''connection refused''), heldByA)
   \<and> Failure ''connection refused'' \<noteq> ErrAlreadyLocked
   \<and> fst (TryLock downLockRepo nodeB heldByA)
        = Some (Wrap (Failure ''connection refused'') ''acquire lock failed'')
   \<and> fst (snd (TryLock downLockRepo nodeB heldByA)) = nodeB"
proof -
  have nl: "\<not> locked nodeB"
    by (simp add: nodeB_def NewDistributeLockManager_def)
  have l1: "Lock memLockRepo lockResource (owner nodeB) 90 heldByA = (Inl ErrAlreadyLocked, heldByA)"
    by (simp add: memLockRepo_def memLock_def heldByA_def liveLock_def lockResource_def)
  have l2: "Lock downLockRepo lockResource (owner nodeB) 90 heldByA
              = (Inl (Failure ''connection refused''), heldByA)"
    by (simp add: downLockRepo_def)
  have ne: "Failure ''connection refused'' \<noteq> ErrAlreadyLocked"
    by simp
  from TryLock_not_holding [OF nl, of memLockRepo heldByA heldByA "Failure ''x''"] l1
  have a: "fst (TryLock memLockRepo nodeB heldByA) = None
           \<and> \<not> HasLock (fst (snd (TryLock memLockRepo nodeB heldByA)))
           \<and> lockID (fst (snd (TryLock memLockRepo nodeB heldByA))) = NilObjectID"
    by blast
  from TryLock_not_holding [OF nl, of downLockRepo heldByA heldByA "Failure ''connection refused''"] l2 ne
  have b: "fst (TryLock downLockRepo nodeB heldByA)
             = Some (Wrap (Failure ''connection refused'') ''acquire lock failed'')
           \<and> fst (snd (TryLock downLockRepo nodeB heldByA)) = nodeB"
    by blast
  from nl l1 l2 ne a b show ?thesis by blast
qed

text \<open>
  C8, the part the code keeps: when the repository's \<open>UnLock\<close> fails for a node that
  holds the lease, the error is returned, the node is demoted (\<open>HasLock\<close> is false) and
  its lock id is cleared.
\<close>

lemma TryUnLock_error_demotes:
  "locked d \<Longrightarrow> UnLock repo (lockID d) s = (Some e, s') \<Longrightarrow>
   TryUnLock repo d s = (Some e, d\<lparr>locked := False, lockID := NilObjectID\<rparr>, s')"
  by (simp add: TryUnLock_def)

text \<open>
  C8, at the failing input: node A holds lease 1 and releases it. The repository
  removes the lease and reports no error; \<open>TryUnLock\<close> returns nil and leaves the
  manager as it was, so \<open>HasLock\<close> still answers true and the released id is kept.
\<close>

theorem TryUnLock_success_keeps_locked:
  "TryUnLock memLockRepo nodeA heldByA = (None, nodeA, heldByA\<lparr>lockRows := []\<rparr>)
   \<and> HasLock (fst (snd (TryUnLock memLockRepo nodeA heldByA)))
   \<and> lockID (fst (snd (TryUnLock memLockRepo nodeA heldByA))) = 1"
  by (simp add: TryUnLock_def memLockRepo_def memUnLock_def nodeA_def heldByA_def HasLock_def)

section \<open>Properties of the trigger matcher\<close>

text \<open>
  C4. For a trigger whose condition is the empty string, \<open>NewTriggerMatcher\<close> compiles
  the constant \<open>true\<close>; where the expression library compiles that constant to a
  program that evaluates to the boolean true, constructing the matcher succeeds and
  \<open>Match\<close> returns true with a nil error in every trigger context.
\<close>

theorem NewTriggerMatcher_empty_condition:
  assumes "PreCondition trig = []"
    and "Compile eng ''true'' = Inr p"
    and "\<forall>ctx. Run eng p ctx = Inr (VBool True)"
  shows "NewTriggerMatcher eng trig = Inr \<lparr>program = p, trigger = trig\<rparr>
         \<and> (\<forall>ctx. TriggerMatcher_Match eng \<lparr>program = p, trigger = trig\<rparr> ctx = (True, None))"
  using assms by (simp add: NewTriggerMatcher_def TriggerMatcher_Match_def)

theorem NewTriggerMatcher_empty_condition_witness:
  "PreCondition noCondition = []
   \<and> Compile toyEngine ''true'' = Inr (PConst (VBool True))
   \<and> NewTriggerMatcher toyEngine noCondition
        = Inr \<lparr>program = PConst (VBool True), trigger = noCondition\<rparr>
   \<and> TriggerMatcher_Match toyEngine \<lparr>program = PConst (VBool True), trigger = noCondition\<rparr>
        freshContext = (True, None)"
proof -
  have h1: "PreCondition noCondition = []"
    by (simp add: noCondition_def)
  have h2: "Compile toyEngine ''true'' = Inr (PConst (VBool True))"
    by (simp add: toyEngine_def toyCompile_def)
  have h3: "\<forall>ctx. Run toyEngine (PConst (VBool True)) ctx = Inr (VBool True)"
    by (simp add: toyEngine_def toyRun_def)
  from NewTriggerMatcher_empty_condition [OF h1 h2 h3] h1 h2 show ?thesis
    by blast
qed

text \<open>
  C9, as the code has it. \<open>Messages\<close> realizes the fetch at most once: a call on a
  context whose \<open>sync.Once\<close> has not fired and whose callback is set invokes the
  callback on the store and returns the whole sequence the callback returned, nothing
  cut; a call on the context left by any earlier call returns the same sequence and
  leaves the context and the store as they are, so the callback is not invoked again.
  \<open>Messages\<close> takes no count argument.
\<close>

theorem Messages_fetches_once:
  "(\<not> messageCallbackOnce tc \<and> MessageCallback tc = Some cb \<longrightarrow>
      fst (Messages tc w) = fst (cb w) \<and> snd (snd (Messages tc w)) = snd (cb w))
   \<and> (Messages tc w = (ms, tc', w') \<longrightarrow> Messages tc' w' = (ms, tc', w'))"
  by (auto simp: Messages_def split: option.splits prod.splits if_splits)

theorem Messages_fetches_once_witness:
  "\<not> messageCallbackOnce freshContext
   \<and> MessageCallback freshContext = Some threeMessages
   \<and> fst (Messages freshContext 0) = fst (threeMessages 0)
   \<and> snd (snd (Messages freshContext 0)) = 1
   \<and> Messages freshContext 0
        = (fst (threeMessages 0),
           freshContext\<lparr>messageCallbackOnce := True, messages := fst (threeMessages 0)\<rparr>, 1)
   \<and> Messages (freshContext\<lparr>messageCallbackOnce := True, messages := fst (threeMessages 0)\<rparr>) 1
        = (fst (threeMessages 0),
           freshContext\<lparr>messageCallbackOnce := True, messages := fst (threeMessages 0)\<rparr>, 1)"
proof -
  let ?tc' = "freshContext\<lparr>messageCallbackOnce := True, messages := fst (threeMessages 0)\<rparr>"
  have h1: "\<not> messageCallbackOnce freshContext \<and> MessageCallback freshContext = Some threeMessages"
    by (simp add: freshContext_def NewTriggerContext_def)
  have h2: "Messages freshContext 0 = (fst (threeMessages 0), ?tc', 1)"
    by (simp add: Messages_def freshContext_def NewTriggerContext_def threeMessages_def)
  from Messages_fetches_once [of freshContext threeMessages 0 "fst (threeMessages 0)" ?tc' 1] h1 h2
  have "fst (Messages freshContext 0) = fst (threeMessages 0)
        \<and> snd (snd (Messages freshContext 0)) = snd (threeMessages 0)
        \<and> Messages ?tc' 1 = (fst (threeMessages 0), ?tc', 1)"
    by blast
  moreover have "snd (threeMessages 0) = 1"
    by (simp add: threeMessages_def)
  ultimately show ?thesis using h1 h2 by simp
qed

text \<open>
  C9, the count argument: the specification has \<open>Messages(n)\<close> return at most
  \<open>n\<close> events.
  The fetcher of \<open>freshContext\<close> returns three messages and \<open>Messages\<close> returns all
  three, whatever count a caller had in mind; with \<open>n = 2\<close> the bound fails.
\<close>

theorem Messages_count_bound_counterexample:
  "\<not> length (fst (Messages freshContext 0)) \<le> 2"
  by (simp add: Messages_def freshContext_def NewTriggerContext_def threeMessages_def)

section \<open>Properties of the connector\<close>

lemma sendLoop_success:
  "fst (sendEventToServer client data s token n) = None \<Longrightarrow>
   sendLoop client data token (s # rest) err n = (None, snd (sendEventToServer client data s token n))"
  by (cases "sendEventToServer client data s token n") auto

lemma sendLoop_failed_prefix:
  "sendLoop client data token pre err n = (Some e, n1) \<Longrightarrow>
   sendLoop client data token (pre @ rest) err n = sendLoop client data token rest (Some e) n1"
proof (induction pre arbitrary: err n)
  case Nil
  then show ?case by simp
next
  case (Cons s pre)
  then show ?case
    by (cases "sendEventToServer client data s token n") (auto split: option.splits)
qed

lemma sendLoop_prefix:
  assumes "sendLoop client data token pre err n = (r1, n1)" and "pre = [] \<or> r1 \<noteq> None"
  shows "sendLoop client data token (pre @ rest) err n = sendLoop client data token rest r1 n1"
proof (cases "pre = []")
  case True
  with assms(1) show ?thesis by simp
next
  case False
  with assms(2) obtain e where "r1 = Some e" by auto
  with assms(1) show ?thesis by (simp add: sendLoop_failed_prefix)
qed

text \<open>
  C10. Whenever the request can be built, the client returns a response (of any status
  code) and its body can be read, \<open>sendEventToServer\<close> returns nil; whenever it
  returns an error, one of these three steps failed. Consequently \<open>Send\<close>, after
  no server or after servers that all failed, stops at the first server that returns a
  response: it reports nil and leaves the network as that server's exchange left it,
  whatever servers follow in the list.
\<close>

theorem sendEventToServer_ignores_status:
  "(NewRequestWithContext client ''POST'' (TrimRight server ''/'' @ ''/api/events/'') data = Inr req
      \<and> Do client (withToken token req) n = (Inr resp, n') \<and> ReadAll resp = Inr body
    \<longrightarrow> sendEventToServer client data server token n = (None, n'))
   \<and> (fst (sendEventToServer client data server token n) \<noteq> None
    \<longrightarrow> (\<exists>e. NewRequestWithContext client ''POST'' (TrimRight server ''/'' @ ''/api/events/'') data = Inl e)
        \<or> (\<exists>r e. NewRequestWithContext client ''POST'' (TrimRight server ''/'' @ ''/api/events/'') data = Inr r
               \<and> fst (Do client (withToken token r) n) = Inl e)
        \<or> (\<exists>r p e. NewRequestWithContext client ''POST'' (TrimRight server ''/'' @ ''/api/events/'') data = Inr r
               \<and> fst (Do client (withToken token r) n) = Inr p \<and> ReadAll p = Inl e))
   \<and> (sendLoop client (marshal \<lparr>evtContent = message, evtMeta = meta, evtTags = tags,
                                  evtOrigin = origin, evtControl = ctl\<rparr>) token pre None n = (r1, n1)
      \<and> (pre = [] \<or> r1 \<noteq> None)
      \<and> NewRequestWithContext client ''POST'' (TrimRight server ''/'' @ ''/api/events/'')
           (marshal \<lparr>evtContent = message, evtMeta = meta, evtTags = tags,
                     evtOrigin = origin, evtControl = ctl\<rparr>) = Inr req1
      \<and> Do client (withToken token req1) n1 = (Inr resp1, n2) \<and> ReadAll resp1 = Inr body1
    \<longrightarrow> Send client marshal (pre @ server # rest) token meta tags origin ctl message n = (None, n2))"
proof (intro conjI impI)
  assume "NewRequestWithContext client ''POST'' (TrimRight server ''/'' @ ''/api/events/'') data = Inr req
      \<and> Do client (withToken token req) n = (Inr resp, n') \<and> ReadAll resp = Inr body"
  then show "sendEventToServer client data server token n = (None, n')"
    by (simp add: sendEventToServer_def)
next
  assume "fst (sendEventToServer client data server token n) \<noteq> None"
  then show "(\<exists>e. NewRequestWithContext client ''POST'' (TrimRight server ''/'' @ ''/api/events/'') data = Inl e)
        \<or> (\<exists>r e. NewRequestWithContext client ''POST'' (TrimRight server ''/'' @ ''/api/events/'') data = Inr r
               \<and> fst (Do client (withToken token r) n) = Inl e)
        \<or> (\<exists>r p e. NewRequestWithContext client ''POST'' (TrimRight server ''/'' @ ''/api/events/'') data = Inr r
               \<and> fst (Do client (withToken token r) n) = Inr p \<and> ReadAll p = Inl e)"
    by (auto simp: sendEventToServer_def split: sum.splits prod.splits)
next
  let ?data = "marshal \<lparr>evtContent = message, evtMeta = meta, evtTags = tags,
                        evtOrigin = origin, evtControl = ctl\<rparr>"
  assume a: "sendLoop client ?data token pre None n = (r1, n1)
      \<and> (pre = [] \<or> r1 \<noteq> None)
      \<and> NewRequestWithContext client ''POST'' (TrimRight server ''/'' @ ''/api/events/'') ?data = Inr req1
      \<and> Do client (withToken token req1) n1 = (Inr resp1, n2) \<and> ReadAll resp1 = Inr body1"
  then have s: "sendEventToServer client ?data server token n1 = (None, n2)"
    by (simp add: sendEventToServer_def)
  from a have "sendLoop client ?data token (pre @ server # rest) None n
                 = sendLoop client ?data token (server # rest) r1 n1"
    by (intro sendLoop_prefix) simp_all
  also have "\<dots> = (None, n2)"
    using sendLoop_success [of client ?data server token n1 rest r1] s by simp
  finally show "Send client marshal (pre @ server # rest) token meta tags origin ctl message n = (None, n2)"
    by (simp add: Send_def)
qed

theorem sendEventToServer_ignores_status_witness:
  "NewRequestWithContext testClient ''POST'' (TrimRight ''http://reject'' ''/'' @ ''/api/events/'') testData
     = Inr \<lparr>reqMethod = ''POST'', reqURL = ''http://reject/api/events/'', reqBody = testData,
            reqHeader = []\<rparr>
   \<and> Do testClient (withToken ''tk'' \<lparr>reqMethod = ''POST'', reqURL = ''http://reject/api/events/'',
                                     reqBody = testData, reqHeader = []\<rparr>) []
     = (Inr \<lparr>StatusCode = 500, ReadAll = Inr ''internal error''\<rparr>, [''http://reject/api/events/''])
   \<and> sendEventToServer testClient testData ''http://reject'' ''tk'' []
     = (None, [''http://reject/api/events/''])
   \<and> fst (sendEventToServer testClient testData ''http://down/'' ''tk'' []) \<noteq> None
   \<and> ((\<exists>e. NewRequestWithContext testClient ''POST'' (TrimRight ''http://down/'' ''/'' @ ''/api/events/'') testData = Inl e)
        \<or> (\<exists>r e. NewRequestWithContext testClient ''POST'' (TrimRight ''http://down/'' ''/'' @ ''/api/events/'') testData = Inr r
               \<and> fst (Do testClient (withToken ''tk'' r) []) = Inl e)
        \<or> (\<exists>r p e. NewRequestWithContext testClient ''POST'' (TrimRight ''http://down/'' ''/'' @ ''/api/events/'') testData = Inr r
               \<and> fst (Do testClient (withToken ''tk'' r) []) = Inr p \<and> ReadAll p = Inl e))
   \<and> sendLoop testClient testData ''tk'' [''http://down/''] None []
     = (Some (Wrap (Failure ''connection refused'') ''request failed''), [''http://down/api/events/''])
   \<and> Send testClient testMarshal ([''http://down/''] @ ''http://reject'' # [''http://ok''])
        ''tk'' [] [] ''agent'' noControl ''disk full'' []
     = (None, [''http://down/api/events/'', ''http://reject/api/events/''])"
proof -
  let ?req = "\<lparr>reqMethod = ''POST'', reqURL = ''http://reject/api/events/'', reqBody = testData,
               reqHeader = []\<rparr>"
  let ?resp = "\<lparr>StatusCode = 500, ReadAll = Inr ''internal error''\<rparr>"
  have t1: "TrimRight ''http://reject'' ''/'' = ''http://reject''"
    by (simp add: TrimRight_def)
  have t2: "TrimRight ''http://down/'' ''/'' = ''http://down''"
    by (simp add: TrimRight_def)
  have r1: "NewRequestWithContext testClient ''POST'' (TrimRight ''http://reject'' ''/'' @ ''/api/events/'') testData
              = Inr ?req"
    by (simp add: t1 testClient_def testNewRequest_def)
  have d1: "Do testClient (withToken ''tk'' ?req) [] = (Inr ?resp, [''http://reject/api/events/''])"
    by (simp add: testClient_def testDo_def withToken_def HeaderSet_def)
  have d2: "Do testClient (withToken ''tk'' ?req) [''http://down/api/events/'']
              = (Inr ?resp, [''http://down/api/events/'', ''http://reject/api/events/''])"
    by (simp add: testClient_def testDo_def withToken_def HeaderSet_def)
  have b1: "ReadAll ?resp = Inr ''internal error''"
    by simp
  have down: "sendEventToServer testClient testData ''http://down/'' ''tk'' []
                = (Some (Wrap (Failure ''connection refused'') ''request failed''), [''http://down/api/events/''])"
    by (simp add: sendEventToServer_def t2 testClient_def testNewRequest_def testDo_def
        withToken_def HeaderSet_def)
  have f1: "fst (sendEventToServer testClient testData ''http://down/'' ''tk'' []) \<noteq> None"
    by (simp add: down)
  have p1: "sendLoop testClient testData ''tk'' [''http://down/''] None []
              = (Some (Wrap (Failure ''connection refused'') ''request failed''), [''http://down/api/events/''])"
    by (simp add: down)
  have td: "testData = testMarshal \<lparr>evtContent = ''disk full'', evtMeta = [], evtTags = [],
                                     evtOrigin = ''agent'', evtControl = noControl\<rparr>"
    by (simp add: testData_def)
  note thm1 = sendEventToServer_ignores_status
    [where client = testClient and server = "''http://reject''" and data = testData and req = ?req
       and token = "''tk''" and n = "[]" and resp = ?resp and n' = "[''http://reject/api/events/'']"
       and body = "''internal error''"]
  note thm2 = sendEventToServer_ignores_status
    [where client = testClient and server = "''http://down/''" and data = testData
       and token = "''tk''" and n = "[]"]
  note thm3 = sendEventToServer_ignores_status
    [where client = testClient and server = "''http://reject''" and token = "''tk''"
       and marshal = testMarshal and message = "''disk full''" and meta = "[]" and tags = "[]"
       and origin = "''agent''" and ctl = noControl and pre = "[''http://down/'']" and n = "[]"
       and ?r1.0 = "Some (Wrap (Failure ''connection refused'') ''request failed'')"
       and ?n1.0 = "[''http://down/api/events/'']" and ?req1.0 = ?req and ?resp1.0 = ?resp
       and ?n2.0 = "[''http://down/api/events/'', ''http://reject/api/events/'']"
       and ?body1.0 = "''internal error''" and rest = "[''http://ok'']"]
  have c1: "sendEventToServer testClient testData ''http://reject'' ''tk'' []
              = (None, [''http://reject/api/events/''])"
    by (rule thm1 [THEN conjunct1, THEN mp]) (simp only: r1 d1 b1 simp_thms)
  have c2: "(\<exists>e. NewRequestWithContext testClient ''POST'' (TrimRight ''http://down/'' ''/'' @ ''/api/events/'') testData = Inl e)
        \<or> (\<exists>r e. NewRequestWithContext testClient ''POST'' (TrimRight ''http://down/'' ''/'' @ ''/api/events/'') testData = Inr r
               \<and> fst (Do testClient (withToken ''tk'' r) []) = Inl e)
        \<or> (\<exists>r p e. NewRequestWithContext testClient ''POST'' (TrimRight ''http://down/'' ''/'' @ ''/api/events/'') testData = Inr r
               \<and> fst (Do testClient (withToken ''tk'' r) []) = Inr p \<and> ReadAll p = Inl e)"
    by (rule thm2 [THEN conjunct2, THEN conjunct1, THEN mp, OF f1])
  have c3: "Send testClient testMarshal ([''http://down/''] @ ''http://reject'' # [''http://ok''])
              ''tk'' [] [] ''agent'' noControl ''disk full'' []
            = (None, [''http://down/api/events/'', ''http://reject/api/events/''])"
    by (rule thm3 [THEN conjunct2, THEN conjunct2, THEN mp]) (simp only: td [symmetric] p1 r1 d2 b1 option.simps simp_thms)
  from r1 d1 c1 f1 c2 p1 c3 show ?thesis by blast
qed

section \<open>Properties of the aggregation job\<close>

text \<open>
  C6. If computing the fingerprint of an event fails, the aggregate key is
  \<open>[error]invalid_rule\<close> when the aggregate expression does not compile and
  \<open>[error]parse_failed\<close> when its evaluation over the event errors; in both cases the
  key begins with \<open>[error]\<close>, and any two events on which the same aggregate
  expression fails get the same key.
\<close>

theorem BuildMessageFinger_error_keys:
  "(NewMessageFinger env groupRule = Inl e \<longrightarrow>
      BuildMessageFinger env groupRule msg = ''[error]invalid_rule'')
   \<and> (NewMessageFinger env groupRule = Inr finger \<and> finger msg = Inl e \<longrightarrow>
      BuildMessageFinger env groupRule msg = ''[error]parse_failed'')
   \<and> (fingerFails env groupRule msg \<longrightarrow>
      take 7 (BuildMessageFinger env groupRule msg) = ''[error]'')
   \<and> (fingerFails env groupRule msg \<and> fingerFails env groupRule msg' \<longrightarrow>
      BuildMessageFinger env groupRule msg = BuildMessageFinger env groupRule msg')"
  by (auto simp: BuildMessageFinger_def fingerFails_def split: sum.splits)

theorem BuildMessageFinger_error_keys_witness:
  "NewMessageFinger testEnv ''Meta['' = Inl (Failure ''unexpected token'')
   \<and> BuildMessageFinger testEnv ''Meta['' eventA = ''[error]invalid_rule''
   \<and> fingerFails testEnv ''Meta[\"server\"]'' eventNoMeta
   \<and> fingerFails testEnv ''Meta[\"server\"]'' eventNoise
   \<and> take 7 (BuildMessageFinger testEnv ''Meta[\"server\"]'' eventNoMeta) = ''[error]''
   \<and> BuildMessageFinger testEnv ''Meta[\"server\"]'' eventNoMeta
        = BuildMessageFinger testEnv ''Meta[\"server\"]'' eventNoise
   \<and> (\<exists>finger. NewMessageFinger testEnv ''Meta[\"server\"]'' = Inr finger
        \<and> finger eventNoMeta = Inl (Failure ''cannot use nil as string'')
        \<and> BuildMessageFinger testEnv ''Meta[\"server\"]'' eventNoMeta = ''[error]parse_failed'')"
proof -
  let ?f = "\<lambda>m. case map_of (Meta m) ''server'' of
                  None \<Rightarrow> Inl (Failure ''cannot use nil as string'')
                | Some v \<Rightarrow> Inr v"
  have h1: "NewMessageFinger testEnv ''Meta['' = Inl (Failure ''unexpected token'')"
    by (simp add: testEnv_def testNewMessageFinger_def)
  have h2: "NewMessageFinger testEnv ''Meta[\"server\"]'' = Inr ?f"
    by (simp add: testEnv_def testNewMessageFinger_def)
  have h3: "?f eventNoMeta = Inl (Failure ''cannot use nil as string'')"
    by (simp add: eventNoMeta_def mkMessage_def)
  have h4: "fingerFails testEnv ''Meta[\"server\"]'' eventNoMeta"
    by (simp add: fingerFails_def h2 eventNoMeta_def mkMessage_def)
  have h5: "fingerFails testEnv ''Meta[\"server\"]'' eventNoise"
    by (simp add: fingerFails_def h2 eventNoise_def mkMessage_def)
  note t1 = BuildMessageFinger_error_keys
    [where env = testEnv and groupRule = "''Meta[''" and e = "Failure ''unexpected token''"
       and msg = eventA]
  note t2 = BuildMessageFinger_error_keys
    [where env = testEnv and groupRule = "''Meta[\"server\"]''" and finger = ?f
       and e = "Failure ''cannot use nil as string''" and msg = eventNoMeta and msg' = eventNoise]
  have c1: "BuildMessageFinger testEnv ''Meta['' eventA = ''[error]invalid_rule''"
    by (rule t1 [THEN conjunct1, THEN mp, OF h1])
  have c2: "BuildMessageFinger testEnv ''Meta[\"server\"]'' eventNoMeta = ''[error]parse_failed''"
    by (rule t2 [THEN conjunct2, THEN conjunct1, THEN mp]) (simp only: h2 h3 simp_thms)
  have c3: "take 7 (BuildMessageFinger testEnv ''Meta[\"server\"]'' eventNoMeta) = ''[error]''"
    by (rule t2 [THEN conjunct2, THEN conjunct2, THEN conjunct1, THEN mp, OF h4])
  have c4: "BuildMessageFinger testEnv ''Meta[\"server\"]'' eventNoMeta
              = BuildMessageFinger testEnv ''Meta[\"server\"]'' eventNoise"
    by (rule t2 [THEN conjunct2, THEN conjunct2, THEN conjunct2, THEN mp]) (simp only: h4 h5 simp_thms)
  from h1 h2 h3 h4 h5 c1 c2 c3 c4 show ?thesis by blast
qed

text \<open>
  C5. A trigger expression whose evaluation fails, or whose result is not a boolean,
  does not fire: \<open>TriggerMatcher.Match\<close> returns false together with the error
  (\<open>InvalidReturnVal\<close> for a non-boolean result). In the aggregator a matcher whose
  \<open>Match\<close> returns an error is skipped: both loops over the matchers go on with the
  remaining matchers from the state they were in, and the callback does not fail.
\<close>

theorem evaluation_errors_are_no_match:
  "(Run eng (program tm) ctx = Inl e \<longrightarrow> TriggerMatcher_Match eng tm ctx = (False, Some e))
   \<and> (Run eng (program tm) ctx = Inr v \<and> (\<forall>b. v \<noteq> VBool b) \<longrightarrow>
        TriggerMatcher_Match eng tm ctx = (False, Some InvalidReturnVal))
   \<and> (snd (snd (Match m msg)) = Some e \<longrightarrow>
        groupingLoop env (m # ms) (msg, canIgnore, cg, w) = groupingLoop env ms (msg, canIgnore, cg, w)
        \<and> rematchLoop (m # ms) msg = rematchLoop ms msg)"
proof (intro conjI impI)
  assume "Run eng (program tm) ctx = Inl e"
  then show "TriggerMatcher_Match eng tm ctx = (False, Some e)"
    by (simp add: TriggerMatcher_Match_def)
next
  assume "Run eng (program tm) ctx = Inr v \<and> (\<forall>b. v \<noteq> VBool b)"
  then show "TriggerMatcher_Match eng tm ctx = (False, Some InvalidReturnVal)"
    by (cases v) (auto simp: TriggerMatcher_Match_def)
next
  assume "snd (snd (Match m msg)) = Some e"
  then show "groupingLoop env (m # ms) (msg, canIgnore, cg, w) = groupingLoop env ms (msg, canIgnore, cg, w)"
    by (cases "Match m msg") (simp add: groupingStep_def)
next
  assume "snd (snd (Match m msg)) = Some e"
  then show "rematchLoop (m # ms) msg = rematchLoop ms msg"
    by (cases "Match m msg") simp
qed

theorem evaluation_errors_are_no_match_witness:
  "Run toyEngine (program raisingMatcher) freshContext = Inl (Failure ''index out of range'')
   \<and> TriggerMatcher_Match toyEngine raisingMatcher freshContext
        = (False, Some (Failure ''index out of range''))
   \<and> Run toyEngine (program numberMatcher) freshContext = Inr (VInt 2)
   \<and> TriggerMatcher_Match toyEngine numberMatcher freshContext = (False, Some InvalidReturnVal)
   \<and> snd (snd (Match (fst (testNewMessageMatcher ruleLoad)) eventA))
        = Some (Failure ''invalid operation: string > int'')
   \<and> groupingLoop testEnv (fst (testNewMessageMatcher ruleLoad) # [fst (testNewMessageMatcher ruleLogstash)])
        (eventA, False, Map.empty, testWorld)
      = groupingLoop testEnv [fst (testNewMessageMatcher ruleLogstash)]
          (eventA, False, Map.empty, testWorld)
   \<and> rematchLoop (fst (testNewMessageMatcher ruleLoad) # [fst (testNewMessageMatcher ruleLogstash)]) eventA
      = rematchLoop [fst (testNewMessageMatcher ruleLogstash)] eventA"
proof -
  have h1: "Run toyEngine (program raisingMatcher) freshContext = Inl (Failure ''index out of range'')"
    by (simp add: toyEngine_def toyRun_def raisingMatcher_def)
  have h2: "Run toyEngine (program numberMatcher) freshContext = Inr (VInt 2) \<and> (\<forall>b. VInt 2 \<noteq> VBool b)"
    by (simp add: toyEngine_def toyRun_def numberMatcher_def)
  have h3: "snd (snd (Match (fst (testNewMessageMatcher ruleLoad)) eventA))
              = Some (Failure ''invalid operation: string > int'')"
    by (simp add: testNewMessageMatcher_def ruleLoad_def mkRule_def)
  note t1 = evaluation_errors_are_no_match
    [where eng = toyEngine and tm = raisingMatcher and ctx = freshContext
       and e = "Failure ''index out of range''"]
  note t2 = evaluation_errors_are_no_match
    [where eng = toyEngine and tm = numberMatcher and ctx = freshContext and v = "VInt 2"]
  note t3 = evaluation_errors_are_no_match
    [where m = "fst (testNewMessageMatcher ruleLoad)" and msg = eventA
       and e = "Failure ''invalid operation: string > int''" and env = testEnv
       and ms = "[fst (testNewMessageMatcher ruleLogstash)]" and canIgnore = False
       and cg = Map.empty and w = testWorld]
  have c1: "TriggerMatcher_Match toyEngine raisingMatcher freshContext
              = (False, Some (Failure ''index out of range''))"
    by (rule t1 [THEN conjunct1, THEN mp, OF h1])
  have c2: "TriggerMatcher_Match toyEngine numberMatcher freshContext = (False, Some InvalidReturnVal)"
    by (rule t2 [THEN conjunct2, THEN conjunct1, THEN mp, OF h2])
  note c3 = t3 [THEN conjunct2, THEN conjunct2, THEN mp, OF h3]
  from h1 h2 h3 c1 c2 c3 show ?thesis by blast
qed

subsection \<open>Fresh ids and updates by id\<close>

lemma fold_max_ge: "a \<le> fold max xs (a::nat)"
  by (induction xs arbitrary: a) (auto intro: order_trans [OF max.cobounded2])

lemma fold_max_upper: "x \<in> set xs \<Longrightarrow> x \<le> fold max xs (a::nat)"
proof (induction xs arbitrary: a)
  case Nil
  then show ?case by simp
next
  case (Cons y ys)
  show ?case
  proof (cases "x = y")
    case True
    have "y \<le> max y a" by simp
    also have "\<dots> \<le> fold max ys (max y a)" by (rule fold_max_ge)
    finally show ?thesis using True by simp
  next
    case False
    with Cons show ?thesis by simp
  qed
qed

lemma freshGroupID_new: "freshGroupID w \<notin> groupID ` set (storedGroups w)"
proof
  assume "freshGroupID w \<in> groupID ` set (storedGroups w)"
  then have "freshGroupID w \<in> set (map groupID (storedGroups w))" by simp
  then have "freshGroupID w \<le> fold max (map groupID (storedGroups w)) 0"
    by (rule fold_max_upper)
  then show False by (simp add: freshGroupID_def)
qed

text \<open>Replacing documents by key, one after the other, is one map over the collection.\<close>

lemma replace_by_key_eq:
  assumes "distinct (map key L)" and "x \<in> set L"
  shows "map (\<lambda>m. if key m = key x then y else m) L = map (\<lambda>m. if m = x then y else m) L"
proof (rule map_cong [OF refl])
  fix m assume "m \<in> set L"
  with assms have "key m = key x \<longleftrightarrow> m = x"
    by (auto simp: distinct_map dest: inj_onD)
  then show "(if key m = key x then y else m) = (if m = x then y else m)" by simp
qed

lemma map_key_replace:
  "key y = key x \<Longrightarrow> map key (map (\<lambda>m. if key m = key x then y else m) L) = map key L"
  by (induction L) auto

lemma fold_replace_by_key:
  assumes "\<And>x. key (f x) = key x"
    and "distinct (map key L)" and "set xs \<subseteq> set L" and "distinct xs"
  shows "fold (\<lambda>x L. map (\<lambda>m. if key m = key x then f x else m) L) xs L
           = map (\<lambda>m. if m \<in> set xs then f m else m) L"
  using assms(2-4)
proof (induction xs arbitrary: L)
  case Nil
  then show ?case by simp
next
  case (Cons x xs)
  let ?L1 = "map (\<lambda>m. if key m = key x then f x else m) L"
  have xL: "x \<in> set L" using Cons.prems by simp
  have inj: "inj_on key (set L)" using Cons.prems by (simp add: distinct_map)
  have L1: "?L1 = map (\<lambda>m. if m = x then f x else m) L"
    using Cons.prems xL by (intro replace_by_key_eq) auto
  have keys: "map key ?L1 = map key L"
    by (rule map_key_replace) (rule assms(1))
  have d1: "distinct (map key ?L1)" unfolding keys using Cons.prems(1) .
  have sub: "set xs \<subseteq> set ?L1"
  proof
    fix y assume y: "y \<in> set xs"
    then have "y \<in> set L" "y \<noteq> x" using Cons.prems by auto
    then show "y \<in> set ?L1" unfolding L1 by (auto simp: image_iff)
  qed
  have fx: "f x \<notin> set xs"
  proof
    assume a: "f x \<in> set xs"
    then have "f x \<in> set L" using Cons.prems by auto
    with inj xL assms(1) [of x] have "f x = x" by (auto dest: inj_onD)
    with a Cons.prems show False by simp
  qed
  have "fold (\<lambda>x L. map (\<lambda>m. if key m = key x then f x else m) L) (x # xs) L
          = map (\<lambda>m. if m \<in> set xs then f m else m) ?L1"
    using Cons.IH [OF d1 sub] Cons.prems by simp
  also have "\<dots> = map (\<lambda>m. if m \<in> set (x # xs) then f m else m) L"
    unfolding L1 using fx by (auto simp: comp_def)
  finally show ?case .
qed


subsection \<open>The second traversal as one map over the messages\<close>

lemma rematchLoop_cases:
  "rematchLoop ms msg
     = (if list_ex (\<lambda>m. anyMatch m msg) ms then msg\<lparr>Status := MessageStatusExpired\<rparr> else msg)"
  by (induction ms) (auto simp: anyMatch_def split: prod.splits option.splits)

lemma rematchLoop_ID: "ID (rematchLoop ms msg) = ID msg"
  by (simp add: rematchLoop_cases)

lemma traverse_rematch:
  assumes "\<forall>i. StoreFault env (OpMessageUpdateID i) = None"
  shows "traverse (rematchCallback env ms) xs ((), w)
           = (None, (), w\<lparr>storedMessages :=
                fold (\<lambda>x L. map (\<lambda>m. if ID m = ID x then rematchLoop ms x else m) L) xs
                  (storedMessages w)\<rparr>)"
proof (induction xs arbitrary: w)
  case Nil
  then show ?case by simp
next
  case (Cons x xs)
  have step: "rematchCallback env ms x ((), w)
                = (None, (), w\<lparr>storedMessages :=
                     map (\<lambda>m. if ID m = ID x then rematchLoop ms x else m) (storedMessages w)\<rparr>)"
    using assms by (simp add: rematchCallback_def MessageRepo_UpdateID_def rematchLoop_ID)
  show ?case
    by (simp add: step Cons.IH)
qed

lemma expire_as_update:
  "map (\<lambda>m. if m \<in> set (filter (\<lambda>m. Status m = MessageStatusCanceled) L) then rematchLoop ms m else m) L
     = map (expire ms) L"
  by (rule map_cong) (auto simp: expire_def)

lemma rematchCanceled_closed:
  assumes "StoreFault env (OpMessageTraverse MessageStatusCanceled) = None"
    and "\<forall>i. StoreFault env (OpMessageUpdateID i) = None"
    and "distinct (map ID (storedMessages w))"
  shows "rematchCanceled env ms w
           = (None, (), w\<lparr>storedMessages := map (expire ms) (storedMessages w)\<rparr>)"
proof -
  let ?L = "storedMessages w"
  let ?xs = "filter (\<lambda>m. Status m = MessageStatusCanceled) ?L"
  have d: "distinct ?xs" using assms(3) by (simp add: distinct_map)
  have "fold (\<lambda>x L. map (\<lambda>m. if ID m = ID x then rematchLoop ms x else m) L) ?xs ?L
          = map (\<lambda>m. if m \<in> set ?xs then rematchLoop ms m else m) ?L"
    by (rule fold_replace_by_key [where key = ID and f = "rematchLoop ms"])
       (use assms(3) d in \<open>auto simp: rematchLoop_ID\<close>)
  also have "\<dots> = map (expire ms) ?L" by (rule expire_as_update)
  finally show ?thesis
    using assms(1) by (simp add: rematchCanceled_def MessageRepo_Traverse_def traverse_rematch [OF assms(2)])
qed

lemma expire_idem: "expire ms (expire ms msg) = expire ms msg"
  by (simp add: expire_def rematchLoop_cases)

lemma expire_ID: "ID (expire ms msg) = ID msg"
  by (simp add: expire_def rematchLoop_ID)

lemma expire_not_pending:
  "Status (expire ms msg) = MessageStatusPending \<longleftrightarrow> Status msg = MessageStatusPending"
  by (simp add: expire_def rematchLoop_cases)

subsection \<open>The third traversal as one map over the groups\<close>

lemma Count_same_messages:
  "storedMessages w = storedMessages w0 \<Longrightarrow> MessageRepo_Count env gid w = MessageRepo_Count env gid w0"
  by (simp add: MessageRepo_Count_def split: option.splits)

lemma advance_same_messages:
  "storedMessages w = storedMessages w0 \<Longrightarrow> advance env w g = advance env w0 g"
  using Count_same_messages [of w w0 env "groupID g"] by (simp add: advance_def)

lemma advance_groupID: "groupID (advance env w g) = groupID g"
  by (simp add: advance_def)

lemma traverse_pending:
  assumes "\<forall>i. StoreFault env (OpGroupUpdateID i) = None"
    and "storedMessages w = storedMessages w0"
    and "\<forall>x\<in>set xs. groupStatus x = MessageGroupStatusCollecting"
  shows "traverse (pendingCallback env) xs w
           = (None, w\<lparr>storedGroups :=
                fold (\<lambda>x L. map (\<lambda>g. if groupID g = groupID x then advance env w0 x else g) L)
                  (filter (readyCollecting env) xs) (storedGroups w),
              published := published w
                @ map (\<lambda>g. \<lparr>eventGroup = advance env w0 g, CreatedAt = Now env\<rparr>)
                    (filter (readyCollecting env) xs)\<rparr>)"
  using assms(3) assms(2)
proof (induction xs arbitrary: w)
  case Nil
  then show ?case by simp
next
  case (Cons x xs)
  show ?case
  proof (cases "Ready env x")
    case False
    then have "pendingCallback env x w = (None, w)"
      by (simp add: pendingCallback_def)
    moreover have "\<not> readyCollecting env x" using False by (simp add: readyCollecting_def)
    ultimately show ?thesis using Cons by simp
  next
    case True
    then have rc: "readyCollecting env x" using Cons.prems by (simp add: readyCollecting_def)
    let ?w1 = "Publish env (advance env w0 x)
                 (w\<lparr>storedGroups := map (\<lambda>g. if groupID g = groupID x then advance env w0 x else g)
                                        (storedGroups w)\<rparr>)"
    have adv: "advance env w0 x
                 = x\<lparr>MessageCount := fst (MessageRepo_Count env (groupID x) w),
                      groupStatus := MessageGroupStatusPending\<rparr>"
      using rc Count_same_messages [OF Cons.prems(2), of env "groupID x"] by (simp add: advance_def)
    have step: "pendingCallback env x w = (None, ?w1)"
      using True assms(1) unfolding adv
      by (simp add: pendingCallback_def GroupRepo_UpdateID_def Let_def case_prod_beta)
    have m1: "storedMessages ?w1 = storedMessages w0"
      using Cons.prems(2) by (simp add: Publish_def)
    have "traverse (pendingCallback env) (x # xs) w = traverse (pendingCallback env) xs ?w1"
      by (simp add: step)
    also have "\<dots> = (None, ?w1\<lparr>storedGroups :=
                fold (\<lambda>x L. map (\<lambda>g. if groupID g = groupID x then advance env w0 x else g) L)
                  (filter (readyCollecting env) xs) (storedGroups ?w1),
              published := published ?w1
                @ map (\<lambda>g. \<lparr>eventGroup = advance env w0 g, CreatedAt = Now env\<rparr>)
                    (filter (readyCollecting env) xs)\<rparr>)"
      using Cons.prems(1) by (intro Cons.IH [OF _ m1]) simp
    finally show ?thesis using rc by (simp add: Publish_def)
  qed
qed

lemma advance_as_update:
  "map (\<lambda>g. if g \<in> set (filter (readyCollecting env) L) then advance env w g else g) L
     = map (advance env w) L"
  by (rule map_cong) (auto simp: advance_def)

lemma filter_readyCollecting:
  "filter (\<lambda>g. groupStatus g = MessageGroupStatusCollecting \<and> readyCollecting env g) L
     = filter (readyCollecting env) L"
  by (rule filter_cong) (auto simp: readyCollecting_def)

lemma pendingMessageGroup_closed:
  assumes "StoreFault env (OpGroupTraverse MessageGroupStatusCollecting) = None"
    and "\<forall>i. StoreFault env (OpGroupUpdateID i) = None"
    and "distinct (map groupID (storedGroups w))"
  shows "pendingMessageGroup env w
           = (None, w\<lparr>storedGroups := map (advance env w) (storedGroups w),
                      published := published w
                        @ map (\<lambda>g. \<lparr>eventGroup = advance env w g, CreatedAt = Now env\<rparr>)
                            (filter (readyCollecting env) (storedGroups w))\<rparr>)"
proof -
  let ?L = "storedGroups w"
  let ?xs = "filter (\<lambda>g. groupStatus g = MessageGroupStatusCollecting) ?L"
  let ?ys = "filter (readyCollecting env) ?L"
  have d: "distinct ?ys" using assms(3) by (simp add: distinct_map)
  have "fold (\<lambda>x L. map (\<lambda>g. if groupID g = groupID x then advance env w x else g) L) ?ys ?L
          = map (\<lambda>g. if g \<in> set ?ys then advance env w g else g) ?L"
    by (rule fold_replace_by_key [where key = groupID and f = "advance env w"])
       (use assms(3) d in \<open>auto simp: advance_groupID\<close>)
  also have "\<dots> = map (advance env w) ?L" by (rule advance_as_update)
  finally have f: "fold (\<lambda>x L. map (\<lambda>g. if groupID g = groupID x then advance env w x else g) L) ?ys ?L
                     = map (advance env w) ?L" .
  have "traverse (pendingCallback env) ?xs w
          = (None, w\<lparr>storedGroups :=
                fold (\<lambda>x L. map (\<lambda>g. if groupID g = groupID x then advance env w x else g) L)
                  (filter (readyCollecting env) ?xs) (storedGroups w),
              published := published w
                @ map (\<lambda>g. \<lparr>eventGroup = advance env w g, CreatedAt = Now env\<rparr>)
                    (filter (readyCollecting env) ?xs)\<rparr>)"
    by (rule traverse_pending [OF assms(2) refl]) simp
  then show ?thesis
    using assms(1) by (simp add: pendingMessageGroup_def GroupRepo_Traverse_def filter_readyCollecting f)
qed

subsection \<open>The find-or-insert of the collecting group\<close>

lemma CollectingGroup_frame:
  "CollectingGroup env r w = (res, w') \<Longrightarrow>
   storedMessages w' = storedMessages w \<and> storedRules w' = storedRules w \<and> published w' = published w"
  by (auto simp: CollectingGroup_def Let_def split: option.splits)

lemma CollectingGroup_distinct:
  assumes "distinct (map groupID (storedGroups w))" and "CollectingGroup env r w = (res, w')"
  shows "distinct (map groupID (storedGroups w'))"
  using assms freshGroupID_new [of w]
  by (auto simp: CollectingGroup_def Let_def split: option.splits)

lemma CollectingGroup_answers:
  "StoreFault env (OpCollectingGroup r) = None \<Longrightarrow> \<exists>g. fst (CollectingGroup env r w) = Inr g"
  by (auto simp: CollectingGroup_def Let_def split: option.splits)

subsection \<open>One step of the loop over the matchers\<close>

lemma groupingStep_frame:
  "groupingStep env m (msg, ign, cg, w) = (r, msg', ign', cg', w') \<Longrightarrow>
   ID msg' = ID msg \<and> storedMessages w' = storedMessages w \<and> storedRules w' = storedRules w
   \<and> published w' = published w"
  by (auto simp: groupingStep_def Let_def split: prod.splits option.splits if_splits sum.splits
      dest: CollectingGroup_frame)

lemma groupingStep_distinct:
  "distinct (map groupID (storedGroups w)) \<Longrightarrow>
   groupingStep env m (msg, ign, cg, w) = (r, msg', ign', cg', w') \<Longrightarrow>
   distinct (map groupID (storedGroups w'))"
  by (auto simp: groupingStep_def Let_def split: prod.splits option.splits if_splits sum.splits
      dest: CollectingGroup_distinct)

lemma groupingStep_answers:
  assumes "\<forall>r. StoreFault env (OpCollectingGroup r) = None"
  shows "fst (groupingStep env m st) = None"
proof -
  obtain msg ign cg w where st: "st = (msg, ign, cg, w)" by (cases st) auto
  have "\<And>r w. \<exists>g. fst (CollectingGroup env r w) = Inr g"
    using assms by (simp add: CollectingGroup_answers)
  then show ?thesis
    unfolding st
    by (auto simp: groupingStep_def Let_def split: prod.splits option.splits if_splits sum.splits)
       (metis fst_conv sum.distinct(1))
qed

lemma groupingStep_not_genuine:
  "\<not> genuineMatch m msg \<Longrightarrow>
   groupingStep env m (msg, ign, cg, w) = (None, msg, ign \<or> ignoredMatch m msg, cg, w)"
  by (auto simp: groupingStep_def genuineMatch_def ignoredMatch_def split: prod.splits option.splits)

lemma groupingStep_genuine:
  "genuineMatch m msg \<Longrightarrow> groupingStep env m (msg, ign, cg, w) = (None, msg', ign', cg', w') \<Longrightarrow>
   \<exists>gid. msg' = msg\<lparr>GroupID := GroupID msg @ [gid], Status := MessageStatusGrouped\<rparr>"
  by (auto simp: groupingStep_def genuineMatch_def Let_def
      split: prod.splits option.splits if_splits sum.splits)

lemma groupingStep_shape:
  "groupingStep env m (msg, ign, cg, w) = (r, msg', ign', cg', w') \<Longrightarrow>
   msg' = msg \<or> (\<exists>gid. msg' = msg\<lparr>GroupID := GroupID msg @ [gid], Status := MessageStatusGrouped\<rparr>)"
  by (auto simp: groupingStep_def Let_def split: prod.splits option.splits if_splits sum.splits)


subsection \<open>The loop over the matchers\<close>

lemma groupingLoop_Cons:
  "groupingStep env m st = (r, st1) \<Longrightarrow>
   groupingLoop env (m # ms) st = (case r of Some err \<Rightarrow> (Some err, st1) | None \<Rightarrow> groupingLoop env ms st1)"
  by (simp split: option.splits)

lemma groupingLoop_frame:
  "groupingLoop env ms (msg, ign, cg, w) = (r, msg', ign', cg', w') \<Longrightarrow>
   ID msg' = ID msg \<and> storedMessages w' = storedMessages w \<and> storedRules w' = storedRules w
   \<and> published w' = published w"
proof (induction ms arbitrary: msg ign cg w)
  case Nil
  then show ?case by simp
next
  case (Cons m ms)
  obtain r1 msg1 ign1 cg1 w1 where step: "groupingStep env m (msg, ign, cg, w) = (r1, msg1, ign1, cg1, w1)"
    by (metis prod_cases5)
  note f = groupingStep_frame [OF step]
  show ?case
  proof (cases r1)
    case None
    with Cons.prems step have "groupingLoop env ms (msg1, ign1, cg1, w1) = (r, msg', ign', cg', w')"
      by simp
    from Cons.IH [OF this] f show ?thesis by simp
  next
    case (Some e)
    with Cons.prems step f show ?thesis by simp
  qed
qed

lemma groupingLoop_distinct:
  "distinct (map groupID (storedGroups w)) \<Longrightarrow>
   groupingLoop env ms (msg, ign, cg, w) = (r, msg', ign', cg', w') \<Longrightarrow>
   distinct (map groupID (storedGroups w'))"
proof (induction ms arbitrary: msg ign cg w)
  case Nil
  then show ?case by simp
next
  case (Cons m ms)
  obtain r1 msg1 ign1 cg1 w1 where step: "groupingStep env m (msg, ign, cg, w) = (r1, msg1, ign1, cg1, w1)"
    by (metis prod_cases5)
  note d = groupingStep_distinct [OF Cons.prems(1) step]
  show ?case
  proof (cases r1)
    case None
    with Cons.prems step have "groupingLoop env ms (msg1, ign1, cg1, w1) = (r, msg', ign', cg', w')"
      by simp
    from Cons.IH [OF d this] show ?thesis .
  next
    case (Some e)
    with Cons.prems step d show ?thesis by simp
  qed
qed

lemma groupingLoop_answers:
  assumes "\<forall>r. StoreFault env (OpCollectingGroup r) = None"
  shows "fst (groupingLoop env ms st) = None"
proof (induction ms arbitrary: st)
  case Nil
  then show ?case by simp
next
  case (Cons m ms)
  obtain st1 where "groupingStep env m st = (None, st1)"
    using groupingStep_answers [OF assms, of m st] by (cases "groupingStep env m st") auto
  then show ?case using Cons.IH by simp
qed

lemma groupingLoop_no_genuine:
  "list_all (\<lambda>m. \<not> genuineMatch m msg) ms \<Longrightarrow>
   groupingLoop env ms (msg, ign, cg, w)
     = (None, msg, ign \<or> list_ex (\<lambda>m. ignoredMatch m msg) ms, cg, w)"
proof (induction ms arbitrary: ign)
  case Nil
  then show ?case by simp
next
  case (Cons m ms)
  then show ?case
    by (simp add: groupingStep_not_genuine disj_assoc)
qed

lemma groupingLoop_grouped_stays:
  "Status msg = MessageStatusGrouped \<Longrightarrow>
   groupingLoop env ms (msg, ign, cg, w) = (r, msg', ign', cg', w') \<Longrightarrow>
   Status msg' = MessageStatusGrouped \<and> (\<exists>gids. GroupID msg' = GroupID msg @ gids)"
proof (induction ms arbitrary: msg ign cg w)
  case Nil
  then show ?case by simp
next
  case (Cons m ms)
  obtain r1 msg1 ign1 cg1 w1 where step: "groupingStep env m (msg, ign, cg, w) = (r1, msg1, ign1, cg1, w1)"
    by (metis prod_cases5)
  from groupingStep_shape [OF step] Cons.prems(1)
  have s1: "Status msg1 = MessageStatusGrouped" and g1: "\<exists>gids. GroupID msg1 = GroupID msg @ gids"
    by auto
  show ?case
  proof (cases r1)
    case None
    with Cons.prems step have "groupingLoop env ms (msg1, ign1, cg1, w1) = (r, msg', ign', cg', w')"
      by simp
    from Cons.IH [OF s1 this] g1 show ?thesis by auto
  next
    case (Some e)
    with Cons.prems step s1 g1 show ?thesis by simp
  qed
qed

lemma groupingLoop_genuine:
  "list_ex (\<lambda>m. genuineMatch m msg) ms \<Longrightarrow>
   groupingLoop env ms (msg, ign, cg, w) = (None, msg', ign', cg', w') \<Longrightarrow>
   Status msg' = MessageStatusGrouped \<and> (\<exists>gids. gids \<noteq> [] \<and> GroupID msg' = GroupID msg @ gids)"
proof (induction ms arbitrary: ign)
  case Nil
  then show ?case by simp
next
  case (Cons m ms)
  show ?case
  proof (cases "genuineMatch m msg")
    case False
    with Cons.prems have ex: "list_ex (\<lambda>m. genuineMatch m msg) ms"
      and loop: "groupingLoop env ms (msg, ign \<or> ignoredMatch m msg, cg, w) = (None, msg', ign', cg', w')"
      by (simp_all add: groupingStep_not_genuine)
    from Cons.IH [OF ex loop] show ?thesis .
  next
    case True
    obtain r1 msg1 ign1 cg1 w1 where step: "groupingStep env m (msg, ign, cg, w) = (r1, msg1, ign1, cg1, w1)"
      by (metis prod_cases5)
    with Cons.prems(2) have r1: "r1 = None"
      and loop: "groupingLoop env ms (msg1, ign1, cg1, w1) = (None, msg', ign', cg', w')"
      by (auto split: option.splits)
    from groupingStep_genuine [OF True step [unfolded r1]]
    obtain gid where m1: "msg1 = msg\<lparr>GroupID := GroupID msg @ [gid], Status := MessageStatusGrouped\<rparr>"
      by blast
    then have "Status msg1 = MessageStatusGrouped" by simp
    from groupingLoop_grouped_stays [OF this loop] m1 show ?thesis by auto
  qed
qed


subsection \<open>Known groups\<close>

lemma knownGroup_mono:
  "set (storedGroups w) \<subseteq> set (storedGroups w') \<Longrightarrow> knownGroup ms w gid \<Longrightarrow> knownGroup ms w' gid"
  by (auto simp: knownGroup_def list_ex_iff)

lemma knownGroup_same_groups:
  "storedGroups w' = storedGroups w \<Longrightarrow> knownGroup ms w' = knownGroup ms w"
  by (auto simp: knownGroup_def fun_eq_iff)

lemma cacheKnown_mono:
  "set (storedGroups w) \<subseteq> set (storedGroups w') \<Longrightarrow> cacheKnown ms cg w \<Longrightarrow> cacheKnown ms cg w'"
  by (auto simp: cacheKnown_def dest: knownGroup_mono)

lemma CollectingGroup_grows:
  "CollectingGroup env r w = (res, w') \<Longrightarrow> set (storedGroups w) \<subseteq> set (storedGroups w')"
  by (auto simp: CollectingGroup_def Let_def split: option.splits)

lemma CollectingGroup_known:
  assumes "m \<in> set ms"
    and "CollectingGroup env (ToGroupRule env (matcherRule m) k t) w = (Inr g, w')"
  shows "knownGroup ms w' (groupID g)"
proof -
  let ?r = "ToGroupRule env (matcherRule m) k t"
  have "g \<in> set (storedGroups w') \<and> groupStatus g = MessageGroupStatusCollecting
        \<and> groupRuleID (grpRule g) = ruleID (matcherRule m)"
  proof (cases "find (sameCollecting ?r) (storedGroups w)")
    case None
    with assms(2) show ?thesis
      by (auto simp: CollectingGroup_def Let_def ToGroupRule_def split: option.splits)
  next
    case (Some g0)
    then have "g0 \<in> set (storedGroups w)" "sameCollecting ?r g0"
      by (auto simp: find_Some_iff)
    moreover from Some assms(2) have "g = g0" "w' = w"
      by (auto simp: CollectingGroup_def split: option.splits)
    ultimately show ?thesis
      by (simp add: sameCollecting_def ToGroupRule_def)
  qed
  with assms(1) show ?thesis
    unfolding knownGroup_def list_ex_iff by metis
qed

lemma groupingStep_known:
  assumes "m \<in> set ms" and "cacheKnown ms cg w"
    and "groupingStep env m (msg, ign, cg, w) = (r, msg', ign', cg', w')"
  shows "cacheKnown ms cg' w' \<and> set (storedGroups w) \<subseteq> set (storedGroups w')
         \<and> (msg' = msg
             \<or> (\<exists>gid. knownGroup ms w' gid
                   \<and> msg' = msg\<lparr>GroupID := GroupID msg @ [gid], Status := MessageStatusGrouped\<rparr>))"
proof (cases "genuineMatch m msg")
  case False
  from groupingStep_not_genuine [OF False, of env ign cg w] assms(2,3)
  show ?thesis by simp
next
  case True
  let ?key = "cacheKey env m msg"
  let ?rule = "ToGroupRule env (matcherRule m)
                 (BuildMessageFinger env (AggregateRule (matcherRule m)) msg) (Type msg)"
  from True obtain ma where ma: "Match m msg = (True, False, None)"
    by (cases "Match m msg") (auto simp: genuineMatch_def)
  show ?thesis
  proof (cases "cg ?key")
    case (Some g)
    with ma assms(3) have "cg' = cg" "w' = w"
      "msg' = msg\<lparr>GroupID := GroupID msg @ [groupID g], Status := MessageStatusGrouped\<rparr>"
      by (simp_all add: groupingStep_def Let_def)
    moreover have "knownGroup ms w (groupID g)"
      using Some assms(2) by (simp add: cacheKnown_def)
    ultimately show ?thesis using assms(2) by auto
  next
    case None
    obtain res w1 where cgr: "CollectingGroup env ?rule w = (res, w1)"
      by (cases "CollectingGroup env ?rule w") auto
    note grows = CollectingGroup_grows [OF cgr]
    show ?thesis
    proof (cases res)
      case (Inl e)
      with None ma cgr assms(3) have "cg' = cg" "w' = w1" "msg' = msg"
        by (simp_all add: groupingStep_def Let_def)
      with grows assms(2) show ?thesis
        by (auto dest: cacheKnown_mono)
    next
      case (Inr grp)
      with None ma cgr assms(3) have eqs: "cg' = cg(?key \<mapsto> grp)" "w' = w1"
        "msg' = msg\<lparr>GroupID := GroupID msg @ [groupID grp], Status := MessageStatusGrouped\<rparr>"
        by (simp_all add: groupingStep_def Let_def)
      have k: "knownGroup ms w1 (groupID grp)"
        using CollectingGroup_known [OF assms(1)] cgr Inr by blast
      have "cacheKnown ms cg w1" using grows assms(2) by (rule cacheKnown_mono)
      with k have "cacheKnown ms (cg(?key \<mapsto> grp)) w1"
        by (auto simp: cacheKnown_def)
      with k grows eqs show ?thesis by auto
    qed
  qed
qed

lemma groupingLoop_known:
  "set ms' \<subseteq> set ms \<Longrightarrow> cacheKnown ms cg w \<Longrightarrow>
   groupingLoop env ms' (msg, ign, cg, w) = (r, msg', ign', cg', w') \<Longrightarrow>
   cacheKnown ms cg' w' \<and> set (storedGroups w) \<subseteq> set (storedGroups w')
   \<and> (\<exists>gids. GroupID msg' = GroupID msg @ gids \<and> list_all (knownGroup ms w') gids)"
proof (induction ms' arbitrary: msg ign cg w)
  case Nil
  then show ?case by simp
next
  case (Cons m ms')
  obtain r1 msg1 ign1 cg1 w1 where step: "groupingStep env m (msg, ign, cg, w) = (r1, msg1, ign1, cg1, w1)"
    by (metis prod_cases5)
  have min: "m \<in> set ms" and sub: "set ms' \<subseteq> set ms" using Cons.prems(1) by auto
  note k = groupingStep_known [OF min Cons.prems(2) step]
  from k obtain gids1 where g1: "GroupID msg1 = GroupID msg @ gids1" "list_all (knownGroup ms w1) gids1"
    by (elim conjE disjE exE) (auto intro: exI [of _ "[]"])
  show ?case
  proof (cases r1)
    case (Some e)
    with Cons.prems(3) step k g1 show ?thesis by auto
  next
    case None
    with Cons.prems(3) step have loop: "groupingLoop env ms' (msg1, ign1, cg1, w1) = (r, msg', ign', cg', w')"
      by simp
    from k have c1: "cacheKnown ms cg1 w1" by blast
    from Cons.IH [OF sub c1 loop]
    obtain gids where IH: "cacheKnown ms cg' w'" "set (storedGroups w1) \<subseteq> set (storedGroups w')"
      "GroupID msg' = GroupID msg1 @ gids" "list_all (knownGroup ms w') gids"
      by blast
    have "list_all (knownGroup ms w') gids1"
      using g1(2) IH(2) by (auto simp: list_all_iff dest: knownGroup_mono)
    with IH g1(1) k have "GroupID msg' = GroupID msg @ (gids1 @ gids)"
      "list_all (knownGroup ms w') (gids1 @ gids)"
      by simp_all
    with IH(1,2) k show ?thesis by blast
  qed
qed

subsection \<open>The callback of the first traversal\<close>

lemma decided_not_pending: "decided ms w' msg msg' \<Longrightarrow> Status msg' \<noteq> MessageStatusPending"
  by (auto simp: decided_def split: if_splits)

lemma decided_mono:
  "set (storedGroups w1) \<subseteq> set (storedGroups w') \<Longrightarrow> decided ms w1 msg msg' \<Longrightarrow> decided ms w' msg msg'"
  by (auto simp: decided_def list_all_iff dest: knownGroup_mono split: if_splits)

lemma MessageRepo_UpdateID_None:
  "MessageRepo_UpdateID env i msg w = (None, w') \<Longrightarrow>
   w' = w\<lparr>storedMessages := map (\<lambda>m. if ID m = i then msg else m) (storedMessages w)\<rparr>"
  by (auto simp: MessageRepo_UpdateID_def split: option.splits)

lemma groupingCallback_effect:
  assumes "Status msg = MessageStatusPending"
    and "cacheKnown ms cg w"
    and "groupingCallback env ms msg (cg, w) = (None, cg', w')"
  shows "\<exists>msg'. decided ms w' msg msg'
           \<and> storedMessages w' = map (\<lambda>m. if ID m = ID msg then msg' else m) (storedMessages w)
           \<and> cacheKnown ms cg' w' \<and> set (storedGroups w) \<subseteq> set (storedGroups w')"
proof -
  obtain r1 msg1 ign1 cg1 w1 where loop: "groupingLoop env ms (msg, False, cg, w) = (r1, msg1, ign1, cg1, w1)"
    by (metis prod_cases5)
  let ?msg2 = "if Status msg1 = MessageStatusPending
               then msg1\<lparr>Status := IfElse ign1 MessageStatusIgnored MessageStatusCanceled\<rparr>
               else msg1"
  from assms(3) loop have r1: "r1 = None"
    by (cases r1) (simp_all add: groupingCallback_def)
  with assms(3) loop have upd: "MessageRepo_UpdateID env (ID ?msg2) ?msg2 w1 = (None, w')"
    and cg1: "cg1 = cg'"
    by (auto simp: groupingCallback_def Let_def split: prod.splits if_splits)
  note f = groupingLoop_frame [OF loop]
  note k = groupingLoop_known [OF subset_refl assms(2) loop]
  have id2: "ID ?msg2 = ID msg" using f by simp
  have w': "w' = w1\<lparr>storedMessages := map (\<lambda>m. if ID m = ID ?msg2 then ?msg2 else m) (storedMessages w1)\<rparr>"
    by (rule MessageRepo_UpdateID_None [OF upd])
  have groups: "storedGroups w' = storedGroups w1"
    by (subst w') simp
  have stored: "storedMessages w' = map (\<lambda>m. if ID m = ID msg then ?msg2 else m) (storedMessages w)"
    using f id2 by (subst w') simp
  have kn: "knownGroup ms w' = knownGroup ms w1"
    by (rule knownGroup_same_groups [OF groups])
  have ck: "cacheKnown ms cg' w'"
    using k cg1 by (simp add: cacheKnown_def kn)
  have grows: "set (storedGroups w) \<subseteq> set (storedGroups w')"
    using k groups by simp
  have "decided ms w' msg ?msg2"
  proof (cases "list_ex (\<lambda>m. genuineMatch m msg) ms")
    case True
    from groupingLoop_genuine [OF True loop [unfolded r1]]
    obtain gids where g: "Status msg1 = MessageStatusGrouped" "gids \<noteq> []"
      "GroupID msg1 = GroupID msg @ gids"
      by blast
    from k obtain gids' where g': "GroupID msg1 = GroupID msg @ gids'" "list_all (knownGroup ms w1) gids'"
      by blast
    from g(3) g'(1) have "gids' = gids" by simp
    with g g' True id2 show ?thesis
      by (auto simp: decided_def kn)
  next
    case False
    then have "list_all (\<lambda>m. \<not> genuineMatch m msg) ms"
      by (simp add: list_all_iff list_ex_iff)
    from groupingLoop_no_genuine [OF this, of env False cg w] loop
    have "msg1 = msg" "ign1 = list_ex (\<lambda>m. ignoredMatch m msg) ms"
      by simp_all
    with assms(1) False show ?thesis
      by (simp add: decided_def IfElse_def)
  qed
  with stored ck grows show ?thesis by blast
qed

lemma groupingCallback_frame:
  assumes "groupingCallback env ms msg (cg, w) = (r, cg', w')"
  shows "storedRules w' = storedRules w \<and> published w' = published w
         \<and> (distinct (map groupID (storedGroups w)) \<longrightarrow> distinct (map groupID (storedGroups w')))"
proof -
  obtain r1 msg1 ign1 cg1 w1 where loop: "groupingLoop env ms (msg, False, cg, w) = (r1, msg1, ign1, cg1, w1)"
    by (metis prod_cases5)
  note f = groupingLoop_frame [OF loop]
  have d: "distinct (map groupID (storedGroups w)) \<Longrightarrow> distinct (map groupID (storedGroups w1))"
    using groupingLoop_distinct [OF _ loop] by blast
  have "storedRules w' = storedRules w1 \<and> published w' = published w1 \<and> storedGroups w' = storedGroups w1"
    using assms loop
    by (cases r1)
       (auto simp: groupingCallback_def Let_def MessageRepo_UpdateID_def split: prod.splits option.splits)
  with f d show ?thesis by auto
qed

lemma groupingCallback_answers:
  assumes "\<forall>r. StoreFault env (OpCollectingGroup r) = None"
    and "\<forall>i. StoreFault env (OpMessageUpdateID i) = None"
  shows "fst (groupingCallback env ms msg cw) = None"
proof -
  obtain msg1 ign1 cg1 w1 where "groupingLoop env ms (msg, False, fst cw, snd cw) = (None, msg1, ign1, cg1, w1)"
    using groupingLoop_answers [OF assms(1), of ms "(msg, False, fst cw, snd cw)"]
    by (metis fst_conv prod_cases5)
  then show ?thesis
    using assms(2) by (simp add: groupingCallback_def Let_def MessageRepo_UpdateID_def)
qed

subsection \<open>The first traversal\<close>

lemma traverse_answers:
  "(\<And>x s. fst (cb x s) = None) \<Longrightarrow> fst (traverse cb xs s) = None"
proof (induction xs arbitrary: s)
  case Nil
  then show ?case by simp
next
  case (Cons x xs)
  obtain s1 where "cb x s = (None, s1)"
    using Cons.prems [of x s] by (cases "cb x s") auto
  then show ?case using Cons by simp
qed

lemma traverse_grouping:
  assumes "distinct (map ID (storedMessages w))"
    and "distinct (map ID xs)"
    and "set xs \<subseteq> set (storedMessages w)"
    and "\<forall>x\<in>set xs. Status x = MessageStatusPending"
    and "cacheKnown ms cg w"
    and "traverse (groupingCallback env ms) xs (cg, w) = (None, cg', w')"
  shows "map ID (storedMessages w') = map ID (storedMessages w)
         \<and> (\<forall>x\<in>set xs. \<exists>x'\<in>set (storedMessages w'). decided ms w' x x')
         \<and> (\<forall>m\<in>set (storedMessages w). ID m \<notin> ID ` set xs \<longrightarrow> m \<in> set (storedMessages w'))
         \<and> set (storedGroups w) \<subseteq> set (storedGroups w')"
  using assms
proof (induction xs arbitrary: cg w)
  case Nil
  then show ?case by simp
next
  case (Cons x xs)
  obtain r1 cg1 w1 where cb: "groupingCallback env ms x (cg, w) = (r1, cg1, w1)"
    by (metis prod_cases3)
  with Cons.prems(6) have r1: "r1 = None" and rest: "traverse (groupingCallback env ms) xs (cg1, w1) = (None, cg', w')"
    by (auto split: option.splits)
  have px: "Status x = MessageStatusPending" using Cons.prems(4) by simp
  from groupingCallback_effect [OF px Cons.prems(5) cb [unfolded r1]]
  obtain x' where dec: "decided ms w1 x x'"
    and L1: "storedMessages w1 = map (\<lambda>m. if ID m = ID x then x' else m) (storedMessages w)"
    and ck1: "cacheKnown ms cg1 w1" and grows1: "set (storedGroups w) \<subseteq> set (storedGroups w1)"
    by blast
  have idx: "ID x' = ID x" using dec by (simp add: decided_def)
  have ids1: "map ID (storedMessages w1) = map ID (storedMessages w)"
    unfolding L1 by (rule map_key_replace) (rule idx)
  have d1: "distinct (map ID (storedMessages w1))" using Cons.prems(1) ids1 by simp
  have dx: "distinct (map ID xs)" using Cons.prems(2) by simp
  have xin: "x \<in> set (storedMessages w)" using Cons.prems(3) by simp
  have keep: "\<And>m. m \<in> set (storedMessages w) \<Longrightarrow> ID m \<noteq> ID x \<Longrightarrow> m \<in> set (storedMessages w1)"
    unfolding L1 by (auto simp: image_iff)
  have sub1: "set xs \<subseteq> set (storedMessages w1)"
  proof
    fix y assume y: "y \<in> set xs"
    then have "ID y \<in> ID ` set xs" by (rule imageI)
    then have "ID y \<noteq> ID x" using Cons.prems(2) by auto
    moreover have "y \<in> set (storedMessages w)" using y Cons.prems(3) by auto
    ultimately show "y \<in> set (storedMessages w1)" by (rule keep [rotated])
  qed
  have p1: "\<forall>x\<in>set xs. Status x = MessageStatusPending" using Cons.prems(4) by simp
  note IH = Cons.IH [OF d1 dx sub1 p1 ck1 rest]
  have grows: "set (storedGroups w1) \<subseteq> set (storedGroups w')" using IH by blast
  have dec': "decided ms w' x x'" using grows dec by (rule decided_mono)
  have x'in1: "x' \<in> set (storedMessages w1)"
    unfolding L1 using xin by (auto simp: image_iff)
  have x'new: "ID x' \<notin> ID ` set xs" using idx Cons.prems(2) by auto
  have x'in: "x' \<in> set (storedMessages w')" using IH x'in1 x'new by blast
  show ?case
  proof (intro conjI ballI impI)
    show "map ID (storedMessages w') = map ID (storedMessages w)" using IH ids1 by simp
  next
    fix y assume "y \<in> set (x # xs)"
    then show "\<exists>y'\<in>set (storedMessages w'). decided ms w' y y'"
      using IH dec' x'in by auto
  next
    fix m assume m: "m \<in> set (storedMessages w)" and n: "ID m \<notin> ID ` set (x # xs)"
    then have "m \<in> set (storedMessages w1)" by (intro keep) auto
    moreover have "ID m \<notin> ID ` set xs" using n by auto
    ultimately show "m \<in> set (storedMessages w')" using IH by blast
  next
    show "set (storedGroups w) \<subseteq> set (storedGroups w')" using grows1 grows by blast
  qed
qed

lemma traverse_grouping_frame:
  "traverse (groupingCallback env ms) xs (cg, w) = (r, cg', w') \<Longrightarrow>
   storedRules w' = storedRules w \<and> published w' = published w
   \<and> (distinct (map groupID (storedGroups w)) \<longrightarrow> distinct (map groupID (storedGroups w')))"
proof (induction xs arbitrary: cg w)
  case Nil
  then show ?case by simp
next
  case (Cons x xs)
  obtain r1 cg1 w1 where cb: "groupingCallback env ms x (cg, w) = (r1, cg1, w1)"
    by (metis prod_cases3)
  note f = groupingCallback_frame [OF cb]
  show ?case
  proof (cases r1)
    case None
    with Cons.prems cb have "traverse (groupingCallback env ms) xs (cg1, w1) = (r, cg', w')" by simp
    from Cons.IH [OF this] f show ?thesis by simp
  next
    case (Some e)
    with Cons.prems cb f show ?thesis by simp
  qed
qed

lemma classifyPending_effect:
  assumes "distinct (map ID (storedMessages w))"
    and "classifyPending env ms w = (None, cg', w')"
  shows "map ID (storedMessages w') = map ID (storedMessages w)"
    and "\<forall>x\<in>set (storedMessages w). Status x = MessageStatusPending \<longrightarrow>
           (\<exists>x'\<in>set (storedMessages w'). decided ms w' x x')"
    and "\<forall>m\<in>set (storedMessages w). Status m \<noteq> MessageStatusPending \<longrightarrow> m \<in> set (storedMessages w')"
proof -
  let ?L = "storedMessages w"
  let ?xs = "filter (\<lambda>m. Status m = MessageStatusPending) ?L"
  have tr: "traverse (groupingCallback env ms) ?xs (Map.empty, w) = (None, cg', w')"
    using assms(2)
    by (auto simp: classifyPending_def MessageRepo_Traverse_def split: option.splits)
  have dxs: "distinct (map ID ?xs)" using assms(1) by (rule distinct_map_filter)
  have ck: "cacheKnown ms Map.empty w" by (simp add: cacheKnown_def)
  note t = traverse_grouping [OF assms(1) dxs _ _ ck tr]
  have inv: "map ID (storedMessages w') = map ID ?L
         \<and> (\<forall>x\<in>set ?xs. \<exists>x'\<in>set (storedMessages w'). decided ms w' x x')
         \<and> (\<forall>m\<in>set ?L. ID m \<notin> ID ` set ?xs \<longrightarrow> m \<in> set (storedMessages w'))
         \<and> set (storedGroups w) \<subseteq> set (storedGroups w')"
    by (rule t) auto
  show "map ID (storedMessages w') = map ID ?L" using inv by blast
  show "\<forall>x\<in>set ?L. Status x = MessageStatusPending \<longrightarrow>
           (\<exists>x'\<in>set (storedMessages w'). decided ms w' x x')"
    using inv by auto
  show "\<forall>m\<in>set ?L. Status m \<noteq> MessageStatusPending \<longrightarrow> m \<in> set (storedMessages w')"
  proof (intro ballI impI)
    fix m assume m: "m \<in> set ?L" and np: "Status m \<noteq> MessageStatusPending"
    have "ID m \<notin> ID ` set ?xs"
    proof
      assume "ID m \<in> ID ` set ?xs"
      then obtain x where x: "x \<in> set ?L" "Status x = MessageStatusPending" "ID m = ID x"
        by auto
      with assms(1) m have "m = x" by (auto simp: distinct_map dest: inj_onD)
      with x np show False by simp
    qed
    with inv m show "m \<in> set (storedMessages w')" by blast
  qed
qed

lemma classifyPending_no_pending:
  assumes "distinct (map ID (storedMessages w))"
    and "classifyPending env ms w = (None, cg', w')"
  shows "\<forall>m'\<in>set (storedMessages w'). Status m' \<noteq> MessageStatusPending"
proof
  fix m' assume m': "m' \<in> set (storedMessages w')"
  note e = classifyPending_effect [OF assms]
  have d': "inj_on ID (set (storedMessages w'))"
    using assms(1) e(1) by (metis distinct_map)
  have "ID m' \<in> set (map ID (storedMessages w'))" using m' by simp
  then have "ID m' \<in> set (map ID (storedMessages w))" using e(1) by simp
  then obtain m where m: "m \<in> set (storedMessages w)" "ID m = ID m'" by auto
  show "Status m' \<noteq> MessageStatusPending"
  proof (cases "Status m = MessageStatusPending")
    case True
    with e(2) m obtain x' where x': "x' \<in> set (storedMessages w')" "decided ms w' m x'" by blast
    then have "ID x' = ID m'" using m by (simp add: decided_def)
    with d' x' m' have "x' = m'" by (auto dest: inj_onD)
    with x' show ?thesis by (auto dest: decided_not_pending)
  next
    case False
    with e(3) m have "m \<in> set (storedMessages w')" by blast
    with d' m m' have "m = m'" by (auto dest: inj_onD)
    with False show ?thesis by simp
  qed
qed

lemma classifyPending_frame:
  "classifyPending env ms w = (r, cg', w') \<Longrightarrow>
   storedRules w' = storedRules w \<and> published w' = published w
   \<and> (distinct (map groupID (storedGroups w)) \<longrightarrow> distinct (map groupID (storedGroups w')))"
  by (auto simp: classifyPending_def MessageRepo_Traverse_def split: option.splits
      dest: traverse_grouping_frame)

lemma classifyPending_answers:
  assumes "StoreFault env (OpMessageTraverse MessageStatusPending) = None"
    and "\<forall>r. StoreFault env (OpCollectingGroup r) = None"
    and "\<forall>i. StoreFault env (OpMessageUpdateID i) = None"
  shows "fst (classifyPending env ms w) = None"
  using assms(1) groupingCallback_answers [OF assms(2,3)]
  by (simp add: classifyPending_def MessageRepo_Traverse_def traverse_answers)

text \<open>
  When the count of a ready group fails, the callback does not fail: the group is stored
  as pending with the count 0 that came with the error, and its event is published.
\<close>

lemma pendingCallback_failed_count:
  assumes "Ready env grp"
    and "StoreFault env (OpMessageCount (groupID grp)) = Some e"
    and "StoreFault env (OpGroupUpdateID (groupID grp)) = None"
  shows "pendingCallback env grp w
           = (None,
              Publish env (grp\<lparr>MessageCount := 0, groupStatus := MessageGroupStatusPending\<rparr>)
                (w\<lparr>storedGroups :=
                     map (\<lambda>g. if groupID g = groupID grp
                               then grp\<lparr>MessageCount := 0, groupStatus := MessageGroupStatusPending\<rparr>
                               else g)
                       (storedGroups w)\<rparr>))"
  using assms
  by (simp add: pendingCallback_def MessageRepo_Count_def GroupRepo_UpdateID_def Let_def)

text \<open>
  The third traversal where the store answers all its calls. Let a stored group be
  collecting and ready, and let the store answer the traversal, the updates by id and
  the count for this group. Then \<open>pendingMessageGroup\<close> returns nil and leaves the
  messages as they are; the stored group with this id is the group with status pending
  and with \<open>MessageCount\<close> equal to the store's count of the messages whose group ids
  contain the id; the events published by the traversal are one per collecting and
  ready group, in store order, and the event of this group carries the group as it was
  stored.
\<close>

lemma pendingMessageGroup_advances_ready_groups:
  assumes "StoreFault env (OpGroupTraverse MessageGroupStatusCollecting) = None"
    and "\<forall>i. StoreFault env (OpGroupUpdateID i) = None"
    and "StoreFault env (OpMessageCount (groupID g)) = None"
    and "distinct (map groupID (storedGroups w))"
    and "g \<in> set (storedGroups w)"
    and "groupStatus g = MessageGroupStatusCollecting"
    and "Ready env g"
  shows "fst (pendingMessageGroup env w) = None
     \<and> storedMessages (snd (pendingMessageGroup env w)) = storedMessages w
     \<and> g\<lparr>MessageCount := storeCount (snd (pendingMessageGroup env w)) (groupID g),
           groupStatus := MessageGroupStatusPending\<rparr>
          \<in> set (storedGroups (snd (pendingMessageGroup env w)))
     \<and> (\<forall>h\<in>set (storedGroups (snd (pendingMessageGroup env w))).
           groupID h = groupID g \<longrightarrow>
           h = g\<lparr>MessageCount := storeCount (snd (pendingMessageGroup env w)) (groupID g),
                  groupStatus := MessageGroupStatusPending\<rparr>)
     \<and> published (snd (pendingMessageGroup env w))
          = published w
            @ map (\<lambda>h. \<lparr>eventGroup = h\<lparr>MessageCount := fst (MessageRepo_Count env (groupID h) w),
                                          groupStatus := MessageGroupStatusPending\<rparr>,
                         CreatedAt = Now env\<rparr>)
                (filter (readyCollecting env) (storedGroups w))
     \<and> \<lparr>eventGroup = g\<lparr>MessageCount := storeCount (snd (pendingMessageGroup env w)) (groupID g),
                         groupStatus := MessageGroupStatusPending\<rparr>,
         CreatedAt = Now env\<rparr> \<in> set (published (snd (pendingMessageGroup env w)))"
proof -
  let ?w' = "snd (pendingMessageGroup env w)"
  let ?g' = "g\<lparr>MessageCount := storeCount ?w' (groupID g), groupStatus := MessageGroupStatusPending\<rparr>"
  note closed = pendingMessageGroup_closed [OF assms(1) assms(2) assms(4)]
  have rc: "readyCollecting env g" using assms(6,7) by (simp add: readyCollecting_def)
  have msgs: "storedMessages ?w' = storedMessages w" by (simp add: closed)
  have cnt: "fst (MessageRepo_Count env (groupID g) w) = storeCount ?w' (groupID g)"
    using assms(3) by (simp add: MessageRepo_Count_def storeCount_def msgs)
  have adv: "advance env w g = ?g'"
    using rc cnt by (simp add: advance_def)
  have groups: "storedGroups ?w' = map (advance env w) (storedGroups w)" by (simp add: closed)
  have mem: "?g' \<in> set (storedGroups ?w')"
    unfolding groups using assms(5) adv by (metis image_eqI set_map)
  have uniq: "\<forall>h\<in>set (storedGroups ?w'). groupID h = groupID g \<longrightarrow> h = ?g'"
  proof (intro ballI impI)
    fix h assume h: "h \<in> set (storedGroups ?w')" and e: "groupID h = groupID g"
    from h obtain h0 where h0: "h0 \<in> set (storedGroups w)" "h = advance env w h0"
      unfolding groups by auto
    then have "groupID h0 = groupID g" using e by (simp add: advance_groupID)
    with assms(4,5) h0(1) have "h0 = g" by (auto simp: distinct_map dest: inj_onD)
    with h0(2) adv show "h = ?g'" by simp
  qed
  have adv_eq: "\<And>h. readyCollecting env h \<Longrightarrow>
      advance env w h = h\<lparr>MessageCount := fst (MessageRepo_Count env (groupID h) w),
                           groupStatus := MessageGroupStatusPending\<rparr>"
    by (simp add: advance_def)
  have pub: "published ?w' = published w
            @ map (\<lambda>h. \<lparr>eventGroup = h\<lparr>MessageCount := fst (MessageRepo_Count env (groupID h) w),
                                          groupStatus := MessageGroupStatusPending\<rparr>,
                         CreatedAt = Now env\<rparr>)
                (filter (readyCollecting env) (storedGroups w))"
    by (simp add: closed adv_eq cong: map_cong)
  have ev: "\<lparr>eventGroup = ?g', CreatedAt = Now env\<rparr> \<in> set (published ?w')"
  proof -
    have "g \<in> set (filter (readyCollecting env) (storedGroups w))" using rc assms(5) by simp
    then have "\<lparr>eventGroup = advance env w g, CreatedAt = Now env\<rparr>
                 \<in> set (map (\<lambda>g. \<lparr>eventGroup = advance env w g, CreatedAt = Now env\<rparr>)
                     (filter (readyCollecting env) (storedGroups w)))"
      by (metis (no_types, lifting) image_eqI set_map)
    then show ?thesis unfolding adv by (simp add: closed)
  qed
  have r: "fst (pendingMessageGroup env w) = None" by (simp add: closed)
  from r msgs mem uniq pub ev show ?thesis by blast
qed


lemma pendingMessageGroup_advances_ready_groups_scenario:
  "StoreFault testEnv (OpGroupTraverse MessageGroupStatusCollecting) = None
   \<and> StoreFault testEnv (OpMessageCount (groupID groupOld)) = None
   \<and> distinct (map groupID (storedGroups testWorld))
   \<and> groupOld \<in> set (storedGroups testWorld)
   \<and> groupStatus groupOld = MessageGroupStatusCollecting
   \<and> Ready testEnv groupOld
   \<and> fst (pendingMessageGroup testEnv testWorld) = None
   \<and> storeCount (snd (pendingMessageGroup testEnv testWorld)) (groupID groupOld) = 1
   \<and> groupOld\<lparr>MessageCount := 1, groupStatus := MessageGroupStatusPending\<rparr>
        \<in> set (storedGroups (snd (pendingMessageGroup testEnv testWorld)))
   \<and> \<lparr>eventGroup = groupOld\<lparr>MessageCount := 1, groupStatus := MessageGroupStatusPending\<rparr>,
       CreatedAt = 100\<rparr> \<in> set (published (snd (pendingMessageGroup testEnv testWorld)))"
proof -
  let ?w' = "snd (pendingMessageGroup testEnv testWorld)"
  have h1: "StoreFault testEnv (OpGroupTraverse MessageGroupStatusCollecting) = None"
    by (simp add: testEnv_def)
  have h2: "\<forall>i. StoreFault testEnv (OpGroupUpdateID i) = None"
    by (simp add: testEnv_def)
  have h3: "StoreFault testEnv (OpMessageCount (groupID groupOld)) = None"
    by (simp add: testEnv_def)
  have h4: "distinct (map groupID (storedGroups testWorld))"
    by (simp add: testWorld_def)
  have h5: "groupOld \<in> set (storedGroups testWorld)"
    by (simp add: testWorld_def)
  have h6: "groupStatus groupOld = MessageGroupStatusCollecting"
    by (simp add: groupOld_def)
  have h7: "Ready testEnv groupOld"
    by (simp add: Ready_def groupOld_def testEnv_def)
  note t = pendingMessageGroup_advances_ready_groups [OF h1 h2 h3 h4 h5 h6 h7]
  have msgs: "storedMessages ?w' = storedMessages testWorld"
    using t by blast
  have cnt: "storeCount ?w' (groupID groupOld) = 1"
    unfolding storeCount_def msgs
    by (simp add: testWorld_def groupOld_def eventGrouped_def eventA_def eventNoMeta_def
        eventNoise_def eventOther_def eventExpiring_def mkMessage_def)
  have now: "Now testEnv = 100" by (simp add: testEnv_def)
  from t have
    "fst (pendingMessageGroup testEnv testWorld) = None
     \<and> groupOld\<lparr>MessageCount := storeCount ?w' (groupID groupOld),
                 groupStatus := MessageGroupStatusPending\<rparr> \<in> set (storedGroups ?w')
     \<and> \<lparr>eventGroup = groupOld\<lparr>MessageCount := storeCount ?w' (groupID groupOld),
                                groupStatus := MessageGroupStatusPending\<rparr>,
         CreatedAt = Now testEnv\<rparr> \<in> set (published ?w')"
    by blast
  then have
    "fst (pendingMessageGroup testEnv testWorld) = None
     \<and> groupOld\<lparr>MessageCount := 1, groupStatus := MessageGroupStatusPending\<rparr>
          \<in> set (storedGroups ?w')
     \<and> \<lparr>eventGroup = groupOld\<lparr>MessageCount := 1, groupStatus := MessageGroupStatusPending\<rparr>,
         CreatedAt = 100\<rparr> \<in> set (published ?w')"
    unfolding cnt now .
  with h1 h3 h4 h5 h6 h7 cnt show ?thesis by blast
qed

text \<open>
  C2, at the failing input: group 5 is collecting and ready, one stored message carries
  its id, and the count for the group fails while every other call on the store goes
  through. \<open>pendingMessageGroup\<close> returns nil all the same, and so does a whole run
  of \<open>Handle\<close>: the group is stored as pending with \<open>MessageCount\<close> 0, its event
  is published with that count, and the store's count of the messages of the group
  is 1.
\<close>

theorem pendingMessageGroup_failed_count_stamps_zero:
  "groupStatus groupOld = MessageGroupStatusCollecting
   \<and> Ready countFailsEnv groupOld
   \<and> storeCount testWorld (groupID groupOld) = 1
   \<and> MessageRepo_Count countFailsEnv (groupID groupOld) testWorld
        = (0, Some (Failure ''connection reset''))
   \<and> pendingMessageGroup countFailsEnv testWorld
        = (None,
           testWorld\<lparr>storedGroups :=
                        [groupOld\<lparr>MessageCount := 0, groupStatus := MessageGroupStatusPending\<rparr>],
                      published :=
                        [\<lparr>eventGroup =
                            groupOld\<lparr>MessageCount := 0, groupStatus := MessageGroupStatusPending\<rparr>,
                          CreatedAt = 100\<rparr>]\<rparr>)
   \<and> storeCount (snd (pendingMessageGroup countFailsEnv testWorld)) (groupID groupOld) = 1
   \<and> fst (Handle countFailsEnv NewAggregationJob testWorld) = Completed
   \<and> map (\<lambda>g. (groupID g, groupStatus g, MessageCount g))
         (storedGroups (snd (snd (Handle countFailsEnv NewAggregationJob testWorld))))
        = [(5, MessageGroupStatusPending, 0), (6, MessageGroupStatusCollecting, 0),
           (7, MessageGroupStatusCollecting, 0)]
   \<and> storeCount (snd (snd (Handle countFailsEnv NewAggregationJob testWorld))) 5 = 1"
proof -
  have f: "StoreFault countFailsEnv (OpGroupTraverse MessageGroupStatusCollecting) = None"
    "StoreFault countFailsEnv (OpGroupUpdateID 5) = None"
    "StoreFault countFailsEnv (OpMessageCount 5) = Some (Failure ''connection reset'')"
    "Now countFailsEnv = 100"
    by (simp_all add: countFailsEnv_def testEnv_def)
  have g: "groupID groupOld = 5" "groupStatus groupOld = MessageGroupStatusCollecting"
    by (simp_all add: groupOld_def)
  have r: "Ready countFailsEnv groupOld"
    by (simp add: Ready_def f groupOld_def)
  have c1: "storeCount testWorld (groupID groupOld) = 1"
    by (simp add: storeCount_def testWorld_def groupOld_def eventGrouped_def eventA_def
        eventNoMeta_def eventNoise_def eventOther_def eventExpiring_def mkMessage_def)
  have c0: "MessageRepo_Count countFailsEnv (groupID groupOld) testWorld
              = (0, Some (Failure ''connection reset''))"
    by (simp add: MessageRepo_Count_def g f)
  have cb: "pendingCallback countFailsEnv groupOld testWorld
              = (None,
                 testWorld\<lparr>storedGroups :=
                        [groupOld\<lparr>MessageCount := 0, groupStatus := MessageGroupStatusPending\<rparr>],
                      published :=
                        [\<lparr>eventGroup =
                            groupOld\<lparr>MessageCount := 0, groupStatus := MessageGroupStatusPending\<rparr>,
                          CreatedAt = 100\<rparr>]\<rparr>)"
    using r by (simp add: pendingCallback_failed_count [where e = "Failure ''connection reset''"]
        g f Publish_def testWorld_def)
  have sg: "filter (\<lambda>g. groupStatus g = MessageGroupStatusCollecting) (storedGroups testWorld)
              = [groupOld]"
    by (simp add: testWorld_def g)
  have p: "pendingMessageGroup countFailsEnv testWorld
        = (None,
           testWorld\<lparr>storedGroups :=
                        [groupOld\<lparr>MessageCount := 0, groupStatus := MessageGroupStatusPending\<rparr>],
                      published :=
                        [\<lparr>eventGroup =
                            groupOld\<lparr>MessageCount := 0, groupStatus := MessageGroupStatusPending\<rparr>,
                          CreatedAt = 100\<rparr>]\<rparr>)"
    by (simp add: pendingMessageGroup_def GroupRepo_Traverse_def f sg cb)
  have c2: "storeCount (snd (pendingMessageGroup countFailsEnv testWorld)) (groupID groupOld) = 1"
    using c1 by (simp add: p storeCount_def)
  have h1: "fst (Handle countFailsEnv NewAggregationJob testWorld) = Completed"
    by code_simp
  have h2: "map (\<lambda>g. (groupID g, groupStatus g, MessageCount g))
         (storedGroups (snd (snd (Handle countFailsEnv NewAggregationJob testWorld))))
        = [(5, MessageGroupStatusPending, 0), (6, MessageGroupStatusCollecting, 0),
           (7, MessageGroupStatusCollecting, 0)]"
    by code_simp
  have h3: "storeCount (snd (snd (Handle countFailsEnv NewAggregationJob testWorld))) 5 = 1"
    by code_simp
  from g(2) r c1 c0 p c2 h1 h2 h3 show ?thesis by blast
qed

subsection \<open>A second run\<close>

lemma advance_not_ready: "\<not> readyCollecting env (advance env w g)"
  by (simp add: advance_def readyCollecting_def)

lemma advance_idem: "advance env w' (advance env w g) = advance env w g"
  using advance_not_ready [of env w g] by (simp add: advance_def [of env w'])

lemma classifyPending_nothing_pending:
  assumes "StoreFault env (OpMessageTraverse MessageStatusPending) = None"
    and "\<forall>m\<in>set (storedMessages w). Status m \<noteq> MessageStatusPending"
  shows "classifyPending env ms w = (None, Map.empty, w)"
proof -
  have "filter (\<lambda>m. Status m = MessageStatusPending) (storedMessages w) = []"
    using assms(2) by (simp add: filter_empty_conv)
  then show ?thesis
    using assms(1) by (simp add: classifyPending_def MessageRepo_Traverse_def)
qed

lemma initializeMatchers_answers:
  "StoreFault env OpRuleFind = None \<Longrightarrow>
   initializeMatchers env w
     = Inr (map (\<lambda>ru. fst (NewMessageMatcher env ru))
              (filter (\<lambda>r. ruleStatus r = RuleStatusEnabled) (storedRules w)))"
  by (simp add: initializeMatchers_def RuleRepo_Find_def)

lemma initializeMatchers_same_rules:
  "storedRules w' = storedRules w \<Longrightarrow> initializeMatchers env w' = initializeMatchers env w"
  by (simp add: initializeMatchers_def RuleRepo_Find_def split: option.splits)

text \<open>One complete run without store failures, as three steps on the store.\<close>

lemma Handle_run:
  assumes nofault: "\<forall>op. StoreFault env op = None"
    and dm: "distinct (map ID (storedMessages w))"
    and dg: "distinct (map groupID (storedGroups w))"
    and idle: "\<not> executing a"
    and ms: "initializeMatchers env w = Inr ms"
  shows "\<exists>cg wA. classifyPending env ms w = (None, cg, wA)
           \<and> Handle env a w
               = (Completed, a,
                  wA\<lparr>storedMessages := map (expire ms) (storedMessages wA),
                      storedGroups :=
                        map (advance env (wA\<lparr>storedMessages := map (expire ms) (storedMessages wA)\<rparr>))
                          (storedGroups wA),
                      published := published wA
                        @ map (\<lambda>g. \<lparr>eventGroup =
                                       advance env (wA\<lparr>storedMessages := map (expire ms) (storedMessages wA)\<rparr>) g,
                                     CreatedAt = Now env\<rparr>)
                            (filter (readyCollecting env) (storedGroups wA))\<rparr>)"
proof -
  have "fst (classifyPending env ms w) = None"
    using nofault by (intro classifyPending_answers) auto
  then obtain cg wA where cp: "classifyPending env ms w = (None, cg, wA)"
    by (metis fst_conv prod_cases3)
  note e = classifyPending_effect [OF dm cp]
  note f = classifyPending_frame [OF cp]
  have dmA: "distinct (map ID (storedMessages wA))" using dm e(1) by simp
  have dgA: "distinct (map groupID (storedGroups wA))" using dg f by simp
  let ?wB = "wA\<lparr>storedMessages := map (expire ms) (storedMessages wA)\<rparr>"
  have rc: "rematchCanceled env ms wA = (None, (), ?wB)"
    using nofault dmA by (intro rematchCanceled_closed) auto
  have gm: "groupingMessages env w = (None, ?wB)"
    by (simp add: groupingMessages_def ms cp rc)
  have dgB: "distinct (map groupID (storedGroups ?wB))" using dgA by simp
  have pm: "pendingMessageGroup env ?wB
              = (None, ?wB\<lparr>storedGroups := map (advance env ?wB) (storedGroups ?wB),
                          published := published ?wB
                            @ map (\<lambda>g. \<lparr>eventGroup = advance env ?wB g, CreatedAt = Now env\<rparr>)
                                (filter (readyCollecting env) (storedGroups ?wB))\<rparr>)"
    using nofault dgB by (intro pendingMessageGroup_closed) auto
  have a: "a\<lparr>executing := False\<rparr> = a" using idle by simp
  have "Handle env a w
          = (Completed, a,
             ?wB\<lparr>storedGroups := map (advance env ?wB) (storedGroups ?wB),
                  published := published ?wB
                    @ map (\<lambda>g. \<lparr>eventGroup = advance env ?wB g, CreatedAt = Now env\<rparr>)
                        (filter (readyCollecting env) (storedGroups ?wB))\<rparr>)"
    using idle by (simp add: Handle_def gm pm MustResolve_def a)
  then show ?thesis using cp by simp
qed


text \<open>
  C3. Let no call on the store fail, let the ids of the stored messages and of the
  stored groups be unique, and let no run be in flight. Then a run of \<open>Handle\<close>
  completes, and a second run on the store the first one left, with the same rules and
  the same clock, completes and leaves that store exactly as it found it: the messages,
  the groups and the published events are identical. The second run finds no pending
  message, and no collecting group that is ready.
\<close>

theorem Handle_twice:
  assumes nofault: "\<forall>op. StoreFault env op = None"
    and dm: "distinct (map ID (storedMessages w))"
    and dg: "distinct (map groupID (storedGroups w))"
    and idle: "\<not> executing a"
  shows "fst (Handle env a w) = Completed
     \<and> Handle env a (snd (snd (Handle env a w))) = Handle env a w
     \<and> filter (\<lambda>m. Status m = MessageStatusPending) (storedMessages (snd (snd (Handle env a w)))) = []
     \<and> filter (readyCollecting env) (storedGroups (snd (snd (Handle env a w)))) = []"
proof -
  let ?ms = "map (\<lambda>ru. fst (NewMessageMatcher env ru))
               (filter (\<lambda>r. ruleStatus r = RuleStatusEnabled) (storedRules w))"
  have ms: "initializeMatchers env w = Inr ?ms"
    using nofault by (simp add: initializeMatchers_answers)
  from Handle_run [OF nofault dm dg idle ms]
  obtain cg wA where cp: "classifyPending env ?ms w = (None, cg, wA)"
    and run: "Handle env a w
               = (Completed, a,
                  wA\<lparr>storedMessages := map (expire ?ms) (storedMessages wA),
                      storedGroups :=
                        map (advance env (wA\<lparr>storedMessages := map (expire ?ms) (storedMessages wA)\<rparr>))
                          (storedGroups wA),
                      published := published wA
                        @ map (\<lambda>g. \<lparr>eventGroup =
                                       advance env (wA\<lparr>storedMessages := map (expire ?ms) (storedMessages wA)\<rparr>) g,
                                     CreatedAt = Now env\<rparr>)
                            (filter (readyCollecting env) (storedGroups wA))\<rparr>)"
    by blast
  let ?wB = "wA\<lparr>storedMessages := map (expire ?ms) (storedMessages wA)\<rparr>"
  let ?wC = "wA\<lparr>storedMessages := map (expire ?ms) (storedMessages wA),
                 storedGroups := map (advance env ?wB) (storedGroups wA),
                 published := published wA
                   @ map (\<lambda>g. \<lparr>eventGroup = advance env ?wB g, CreatedAt = Now env\<rparr>)
                       (filter (readyCollecting env) (storedGroups wA))\<rparr>"
  have run': "Handle env a w = (Completed, a, ?wC)" using run .
  note e = classifyPending_effect [OF dm cp]
  note f = classifyPending_frame [OF cp]
  note np = classifyPending_no_pending [OF dm cp]
  have dmC: "distinct (map ID (storedMessages ?wC))"
    using dm e(1) by (simp add: comp_def expire_ID)
  have dgC: "distinct (map groupID (storedGroups ?wC))"
    using dg f by (simp add: comp_def advance_groupID)
  have msC: "initializeMatchers env ?wC = Inr ?ms"
    using ms f initializeMatchers_same_rules [of ?wC w env] by simp
  have npC: "\<forall>m\<in>set (storedMessages ?wC). Status m \<noteq> MessageStatusPending"
    using np by (auto simp: expire_not_pending)
  have cpC: "classifyPending env ?ms ?wC = (None, Map.empty, ?wC)"
    using nofault npC by (intro classifyPending_nothing_pending) auto
  have exC: "map (expire ?ms) (storedMessages ?wC) = storedMessages ?wC"
    by (simp add: comp_def expire_idem)
  have adC: "\<And>w'. map (advance env w') (storedGroups ?wC) = storedGroups ?wC"
    by (simp add: comp_def advance_idem)
  have rcC: "filter (readyCollecting env) (storedGroups ?wC) = []"
    by (simp add: filter_empty_conv advance_not_ready)
  from Handle_run [OF nofault dmC dgC idle msC]
  obtain cg' wA' where cp': "classifyPending env ?ms ?wC = (None, cg', wA')"
    and run2: "Handle env a ?wC
               = (Completed, a,
                  wA'\<lparr>storedMessages := map (expire ?ms) (storedMessages wA'),
                      storedGroups :=
                        map (advance env (wA'\<lparr>storedMessages := map (expire ?ms) (storedMessages wA')\<rparr>))
                          (storedGroups wA'),
                      published := published wA'
                        @ map (\<lambda>g. \<lparr>eventGroup =
                                       advance env (wA'\<lparr>storedMessages := map (expire ?ms) (storedMessages wA')\<rparr>) g,
                                     CreatedAt = Now env\<rparr>)
                            (filter (readyCollecting env) (storedGroups wA'))\<rparr>)"
    by blast
  from cp' cpC have wA': "wA' = ?wC" by simp
  have same: "?wC\<lparr>storedMessages := map (expire ?ms) (storedMessages ?wC),
                  storedGroups :=
                    map (advance env (?wC\<lparr>storedMessages := map (expire ?ms) (storedMessages ?wC)\<rparr>))
                      (storedGroups ?wC),
                  published := published ?wC
                    @ map (\<lambda>g. \<lparr>eventGroup =
                                   advance env (?wC\<lparr>storedMessages := map (expire ?ms) (storedMessages ?wC)\<rparr>) g,
                                 CreatedAt = Now env\<rparr>)
                        (filter (readyCollecting env) (storedGroups ?wC))\<rparr> = ?wC"
    unfolding exC adC rcC by simp
  have second: "Handle env a ?wC = (Completed, a, ?wC)"
    using run2 unfolding wA' same .
  have p: "filter (\<lambda>m. Status m = MessageStatusPending) (storedMessages ?wC) = []"
    using npC by (simp add: filter_empty_conv)
  show ?thesis
    unfolding run' using second p rcC by simp
qed



theorem Handle_twice_witness:
  "(\<forall>op. StoreFault testEnv op = None)
   \<and> distinct (map ID (storedMessages testWorld))
   \<and> distinct (map groupID (storedGroups testWorld))
   \<and> \<not> executing NewAggregationJob
   \<and> fst (Handle testEnv NewAggregationJob testWorld) = Completed
   \<and> Handle testEnv NewAggregationJob (snd (snd (Handle testEnv NewAggregationJob testWorld)))
        = Handle testEnv NewAggregationJob testWorld
   \<and> map (\<lambda>m. (ID m, Status m, GroupID m))
         (storedMessages (snd (snd (Handle testEnv NewAggregationJob testWorld))))
        = [(10, MessageStatusGrouped, [5]), (11, MessageStatusGrouped, [6]),
           (12, MessageStatusGrouped, [7]), (13, MessageStatusIgnored, []),
           (14, MessageStatusCanceled, []), (15, MessageStatusExpired, [])]
   \<and> map (\<lambda>g. (groupID g, groupStatus g, MessageCount g))
         (storedGroups (snd (snd (Handle testEnv NewAggregationJob testWorld))))
        = [(5, MessageGroupStatusPending, 1), (6, MessageGroupStatusCollecting, 0),
           (7, MessageGroupStatusCollecting, 0)]"
proof -
  have h1: "\<forall>op. StoreFault testEnv op = None"
    by (simp add: testEnv_def)
  have h2: "distinct (map ID (storedMessages testWorld))"
    by (simp add: testWorld_def eventGrouped_def eventA_def eventNoMeta_def eventNoise_def
        eventOther_def eventExpiring_def mkMessage_def)
  have h3: "distinct (map groupID (storedGroups testWorld))"
    by (simp add: testWorld_def)
  have h4: "\<not> executing NewAggregationJob"
    by (simp add: NewAggregationJob_def)
  have e1: "map (\<lambda>m. (ID m, Status m, GroupID m))
         (storedMessages (snd (snd (Handle testEnv NewAggregationJob testWorld))))
        = [(10, MessageStatusGrouped, [5]), (11, MessageStatusGrouped, [6]),
           (12, MessageStatusGrouped, [7]), (13, MessageStatusIgnored, []),
           (14, MessageStatusCanceled, []), (15, MessageStatusExpired, [])]"
    by code_simp
  have e2: "map (\<lambda>g. (groupID g, groupStatus g, MessageCount g))
         (storedGroups (snd (snd (Handle testEnv NewAggregationJob testWorld))))
        = [(5, MessageGroupStatusPending, 1), (6, MessageGroupStatusCollecting, 0),
           (7, MessageGroupStatusCollecting, 0)]"
    by code_simp
  from Handle_twice [OF h1 h2 h3 h4] h1 h2 h3 h4 e1 e2 show ?thesis
    by blast
qed




end
